theory Spec2Isabelle
  imports Complex_Main "HOL-Library.Sublist" "HOL-Library.AList" "HOL-Library.Product_Lexorder"
begin

section \<open>Errors\<close>

text \<open>
  The Python exceptions that the modelled code can raise. The scores that \<open>translate.py\<close>
  handles are floating-point numbers and are modelled as real numbers; there
  \<open>FloatingPointError\<close> stands for a numpy result that is not a real number (inf or nan). The
  beam search of \<open>nmt.py\<close> keeps the infinities and nan as values.
\<close>

datatype py_error =
  IndexError | KeyError | ValueError | TypeError | ZeroDivisionError | FloatingPointError

section \<open>translate.py: class Translation\<close>

text \<open>
  The fields of \<open>Translation\<close> that \<open>get_alignment_json\<close> reads. A weight is of type \<open>'w\<close>;
  Python's \<open>str(weight)\<close> is the parameter \<open>str_of\<close>. \<open>alignment\<close> is \<open>None\<close> when no alignment
  was requested, \<open>sentence_id\<close> and \<open>hypothesis_id\<close> default to \<open>None\<close>.
\<close>

record 'w translation =
  source_words :: "string list"
  target_words :: "string list"
  sentence_id :: "int option"
  alignment :: "'w list list option"
  hypothesis_id :: "int option"
  aux_source_words :: "string list list"
  aux_alignment :: "'w list list option list"

type_synonym link = "string \<times> string \<times> string \<times> int option \<times> int option"

text \<open>
  The first branch of \<open>get_alignment_json\<close>: the source tokens (with the end marker appended)
  and the alignment matrix of the main source (\<open>aux is None\<close>) or of the auxiliary source
  number \<open>aux\<close>; indexing a list out of range raises IndexError.
\<close>

definition alignment_source ::
  "'w translation \<Rightarrow> nat option \<Rightarrow> py_error + (string list \<times> 'w list list option)" where
  "alignment_source t aux =
     (case aux of
        None \<Rightarrow> Inr (source_words t @ [''</s>''], alignment t)
      | Some a \<Rightarrow>
          if a < length (aux_source_words t) then
            if a < length (aux_alignment t)
            then Inr (aux_source_words t ! a @ [''</s>''], aux_alignment t ! a)
            else Inl IndexError
          else Inl IndexError)"

text \<open>
  \<open>tid\<close>: \<open>self.sentence_id + self.hypothesis_id\<close> when the hypothesis id is not \<open>None\<close>
  (adding \<open>None\<close> and an integer raises TypeError), otherwise the sentence id.
\<close>

definition tid_of :: "'w translation \<Rightarrow> py_error + int option" where
  "tid_of t =
     (case hypothesis_id t of
        Some h \<Rightarrow> (case sentence_id t of Some s \<Rightarrow> Inr (Some (s + h)) | None \<Rightarrow> Inl TypeError)
      | None \<Rightarrow> Inr (sentence_id t))"

text \<open>The inner loop: one link for each weight of one target position, from source index \<open>j\<close> on.\<close>

fun row_links ::
  "('w \<Rightarrow> string) \<Rightarrow> string \<Rightarrow> string list \<Rightarrow> int option \<Rightarrow> int option \<Rightarrow> nat \<Rightarrow> 'w list
     \<Rightarrow> py_error + link list" where
  "row_links str_of tw src sid tid j [] = Inr []"
| "row_links str_of tw src sid tid j (w # ws) =
     (if j < length src then
        (case row_links str_of tw src sid tid (Suc j) ws of
           Inl e \<Rightarrow> Inl e
         | Inr ls \<Rightarrow> Inr ((tw, src ! j, str_of w, sid, tid) # ls))
      else Inl IndexError)"

text \<open>The outer loop over the target positions, from target index \<open>i\<close> on.\<close>

fun all_links ::
  "('w \<Rightarrow> string) \<Rightarrow> string list \<Rightarrow> string list \<Rightarrow> int option \<Rightarrow> int option \<Rightarrow> nat
     \<Rightarrow> 'w list list \<Rightarrow> py_error + link list" where
  "all_links str_of tgt src sid tid i [] = Inr []"
| "all_links str_of tgt src sid tid i (row # rows) =
     (if row = [] then all_links str_of tgt src sid tid (Suc i) rows
      else if i < length tgt then
        (case row_links str_of (tgt ! i) src sid tid 0 row of
           Inl e \<Rightarrow> Inl e
         | Inr ls \<Rightarrow>
             (case all_links str_of tgt src sid tid (Suc i) rows of
                Inl e \<Rightarrow> Inl e
              | Inr ls' \<Rightarrow> Inr (ls @ ls')))
      else Inl IndexError)"

text \<open>
  \<open>get_alignment_json\<close> with \<open>as_string=False\<close>: the list \<open>links\<close>. (With \<open>as_string=True\<close> the
  same list is handed to \<open>json.dumps\<close>.) Iterating over an alignment that is \<open>None\<close> raises
  TypeError.
\<close>

definition get_alignment_json ::
  "('w \<Rightarrow> string) \<Rightarrow> 'w translation \<Rightarrow> nat option \<Rightarrow> py_error + link list" where
  "get_alignment_json str_of t aux =
     (case alignment_source t aux of
        Inl e \<Rightarrow> Inl e
      | Inr (source_tokens, al) \<Rightarrow>
          (let target_tokens = target_words t @ [''</s>''] in
           case tid_of t of
             Inl e \<Rightarrow> Inl e
           | Inr tid \<Rightarrow>
               (case al of
                  None \<Rightarrow> Inl TypeError
                | Some rows \<Rightarrow> all_links str_of target_tokens source_tokens (sentence_id t) tid 0 rows)))"

text \<open>The links the format describes, written with the positions explicit.\<close>

definition links_of ::
  "('w \<Rightarrow> string) \<Rightarrow> string list \<Rightarrow> string list \<Rightarrow> int option \<Rightarrow> int option \<Rightarrow> nat
     \<Rightarrow> 'w list list \<Rightarrow> link list" where
  "links_of str_of tgt src sid tid i rows =
     concat (map (\<lambda>(ti, row). map (\<lambda>(sj, w). (tgt ! ti, src ! sj, str_of w, sid, tid))
                                   (enumerate 0 row))
                 (enumerate i rows))"

section \<open>translate.py: Translator._translate\<close>

text \<open>
  What \<open>gen_sample\<close> returns: the hypotheses (token id lists), their scores, their word
  probabilities, one list of alignments for each source, and the search graph.
\<close>

record ('al, 'g) decoded =
  d_sample :: "nat list list"
  d_score :: "real list"
  d_word_probs :: "real list list"
  d_alignments :: "'al list list"
  d_hyp_graph :: 'g

datatype ('al, 'g) output_item =
    NBest "('al, 'g) decoded"
  | Best "nat list" real "real list" "'al list" 'g





section \<open>translate.py: Translator._retrieve_jobs\<close>

text \<open>
  A worker process as the coordinator sees it, and what one call of
  \<open>self._output_queue.get(True, timeout)\<close> gives: a response \<open>(request_id, idx, output_item)\<close>,
  or the exception \<open>Empty\<close> after the timeout, with the processes as they are at that moment.
\<close>

record process =
  pid :: nat
  is_alive :: bool
  exitcode :: "int option"

datatype ('r, 'o) event = Resp 'r nat 'o | Empty "process list"

text \<open>
  \<open>self._retrieved_translations\<close> is a \<open>defaultdict(dict)\<close>: request id to (index to output
  item). Reading a missing request id inserts an empty dictionary for it.
\<close>

type_synonym ('r, 'o) buffer = "'r \<rightharpoonup> (nat \<times> 'o) list"

definition touch :: "('r, 'o) buffer \<Rightarrow> 'r \<Rightarrow> ('r, 'o) buffer" where
  "touch buf rid = (case buf rid of None \<Rightarrow> buf(rid \<mapsto> []) | Some d \<Rightarrow> buf)"

definition entry :: "('r, 'o) buffer \<Rightarrow> 'r \<Rightarrow> (nat \<times> 'o) list" where
  "entry buf rid = (case buf rid of None \<Rightarrow> [] | Some d \<Rightarrow> d)"

definition store :: "('r, 'o) buffer \<Rightarrow> 'r \<Rightarrow> nat \<Rightarrow> 'o \<Rightarrow> ('r, 'o) buffer" where
  "store buf rid idx item = buf(rid \<mapsto> AList.update idx item (entry buf rid))"

text \<open>
  How a call of the generator ends: it has yielded its items and deleted the entry
  (\<open>Yielded\<close>, with the buffer and the events left), it has called \<open>sys.exit\<close> after terminating
  the processes of the given indices and logging a process id with its exit code (\<open>Exited\<close>),
  it raised while yielding (\<open>Raised\<close>, with the items yielded before), or it is still blocked
  on the queue when the events end (\<open>Waiting\<close>).
\<close>

datatype ('r, 'o) outcome =
    Yielded "'o list" "('r, 'o) buffer" "('r, 'o) event list"
  | Exited "nat list" nat "int option" int
  | Raised py_error "'o list"
  | Waiting "('r, 'o) buffer"

definition crashed :: "process \<Rightarrow> bool" where
  "crashed p = (\<not> is_alive p \<and> exitcode p \<noteq> Some 0)"

text \<open>The loop \<open>for idx in xrange(num_samples): yield ...[request_id][idx]\<close>.\<close>

fun yield_from :: "(nat \<times> 'o) list \<Rightarrow> nat list \<Rightarrow> 'o list \<times> bool" where
  "yield_from d [] = ([], True)"
| "yield_from d (idx # idxs) =
     (case map_of d idx of
        None \<Rightarrow> ([], False)
      | Some item \<Rightarrow> (case yield_from d idxs of (items, ok) \<Rightarrow> (item # items, ok)))"

definition finish ::
  "nat \<Rightarrow> 'r \<Rightarrow> ('r, 'o) buffer \<Rightarrow> ('r, 'o) event list \<Rightarrow> ('r, 'o) outcome" where
  "finish num_samples request_id buf evs =
     (case yield_from (entry buf request_id) [0..<num_samples] of
        (items, True) \<Rightarrow> Yielded items (buf(request_id := None)) evs
      | (items, False) \<Rightarrow> Raised KeyError items)"

text \<open>
  The \<open>while\<close> loops of \<open>_retrieve_jobs\<close>, over the events the queue delivers. The outer
  condition reads the entry of \<open>request_id\<close>; a response is unpacked with
  \<open>request_id, idx, output_item = resp\<close>, which assigns the local variable \<open>request_id\<close>, so
  the loop goes on with the request id of the response. After a timeout the processes are
  scanned in order; the first one that is dead with an exit code other than 0 makes the
  coordinator terminate every process, log that process and exit with status 1.
\<close>

fun retrieve_jobs ::
  "nat \<Rightarrow> 'r \<Rightarrow> ('r, 'o) buffer \<Rightarrow> ('r, 'o) event list \<Rightarrow> ('r, 'o) outcome" where
  "retrieve_jobs num_samples request_id buf [] =
     (if length (entry buf request_id) < num_samples then Waiting (touch buf request_id)
      else finish num_samples request_id (touch buf request_id) [])"
| "retrieve_jobs num_samples request_id buf (ev # evs) =
     (if length (entry buf request_id) < num_samples then
        (case ev of
           Empty processes \<Rightarrow>
             (case find crashed processes of
                Some p \<Rightarrow> Exited [0..<length processes] (pid p) (exitcode p) 1
              | None \<Rightarrow> retrieve_jobs num_samples request_id (touch buf request_id) evs)
         | Resp rid idx output_item \<Rightarrow>
             retrieve_jobs num_samples rid (store (touch buf request_id) rid idx output_item) evs)
      else finish num_samples request_id (touch buf request_id) (ev # evs))"

section \<open>nmt.py: gen_sample, beam search\<close>

subsection \<open>Floating-point values\<close>

text \<open>
  The scores and probabilities of the search are numpy floats. A finite one is modelled as a
  real number; the infinities and nan are kept, since the search meets them: \<open>numpy.log\<close> of 0
  is \<open>-inf\<close> and of a negative number or of \<open>-inf\<close> is nan (with a warning, not an exception),
  and \<open>suppress_unk\<close> writes \<open>-inf\<close> into the probabilities.
\<close>

datatype npf = NInf | Fin real | PInf | NaN

fun np_add :: "npf \<Rightarrow> npf \<Rightarrow> npf" where
  "np_add NaN b = NaN"
| "np_add a NaN = NaN"
| "np_add PInf NInf = NaN"
| "np_add NInf PInf = NaN"
| "np_add PInf b = PInf"
| "np_add a PInf = PInf"
| "np_add NInf b = NInf"
| "np_add a NInf = NInf"
| "np_add (Fin x) (Fin y) = Fin (x + y)"

fun np_neg :: "npf \<Rightarrow> npf" where
  "np_neg NInf = PInf"
| "np_neg PInf = NInf"
| "np_neg NaN = NaN"
| "np_neg (Fin x) = Fin (- x)"

definition np_sub :: "npf \<Rightarrow> npf \<Rightarrow> npf" where
  "np_sub a b = np_add a (np_neg b)"

fun np_log :: "npf \<Rightarrow> npf" where
  "np_log (Fin x) = (if 0 < x then Fin (ln x) else if x = 0 then NInf else NaN)"
| "np_log PInf = PInf"
| "np_log NInf = NaN"
| "np_log NaN = NaN"

text \<open>Division by a count that is not zero.\<close>

fun np_div :: "npf \<Rightarrow> nat \<Rightarrow> npf" where
  "np_div (Fin x) n = Fin (x / real n)"
| "np_div a n = a"

text \<open>Python's \<open>sum\<close> of a list: \<open>0 + a0 + a1 + ...\<close>, from the left.\<close>

definition np_sum :: "npf list \<Rightarrow> npf" where
  "np_sum xs = foldl np_add (Fin 0) xs"

text \<open>
  The order in which numpy sorts and selects: \<open>-inf\<close>, the finite values in their order,
  \<open>+inf\<close>, and nan last. \<open>np_lt\<close> is the comparison of numpy's sorting routines.
\<close>

fun np_key :: "npf \<Rightarrow> nat \<times> real" where
  "np_key NInf = (0, 0)"
| "np_key (Fin x) = (1, x)"
| "np_key PInf = (2, 0)"
| "np_key NaN = (3, 0)"

definition np_le :: "npf \<Rightarrow> npf \<Rightarrow> bool" where
  "np_le a b = (np_key a \<le> np_key b)"

definition np_lt :: "npf \<Rightarrow> npf \<Rightarrow> bool" where
  "np_lt a b = (np_key a < np_key b)"

subsection \<open>Models, options and the variables of the search\<close>

text \<open>
  The embedding covers the beam search of \<open>gen_sample\<close>, that is the calls with
  \<open>stochastic=False\<close>, with every other option as a parameter. The beam width \<open>k\<close> and
  \<open>maxlen\<close> are natural numbers; a word is its index in the vocabulary.

  A model of the ensemble is the pair of its compiled functions. \<open>f_init\<close> takes the inputs
  and returns the initial decoder state of one hypothesis and one context for each input.
  \<open>f_next\<close> takes the previous words of the live hypotheses, the contexts and the states of
  the live hypotheses, and returns the matrix of word probabilities (one row for each live
  hypothesis), the new states (one for each live hypothesis) and, for each input, the matrix
  of attention weights (one row for each live hypothesis). Its second result, a sampled word,
  is read by the stochastic branch only and is left out.
\<close>

record ('x, 'st, 'ctx) seq_model =
  f_init :: "'x list \<Rightarrow> 'st \<times> 'ctx list"
  f_next :: "int list \<Rightarrow> 'ctx list \<Rightarrow> 'st list
               \<Rightarrow> npf list list \<times> 'st list \<times> real list list list"

text \<open>The boolean options of \<open>gen_sample\<close> (\<open>stochastic\<close> is \<open>False\<close>).\<close>

record gen_flags =
  argmax :: bool
  return_alignment :: bool
  suppress_unk :: bool
  return_hyp_graph :: bool
  init_decoder :: bool

text \<open>
  Modelled from the spec: the class \<open>HypGraph\<close> of the module \<open>hypgraph\<close>, which is not among
  the sources. The specification describes it as a sink that records the search lattice
  (word, parent, cost, probability) and has no part in the translation output; the model
  keeps the calls \<open>hyp_graph.add(word, history, word_prob=..., cost=...)\<close> in their order.
\<close>

type_synonym hyp_graph = "(nat \<times> nat list \<times> npf \<times> npf) list"

text \<open>
  The variables of the search. The finished hypotheses are \<open>sample\<close>, \<open>sample_score\<close>,
  \<open>sample_word_probs\<close> and \<open>alignments\<close> (one list for each input); the live ones are
  \<open>hyp_samples\<close>, \<open>hyp_scores\<close>, \<open>hyp_states\<close> (for each hypothesis, one state for each model),
  \<open>word_probs\<close> and \<open>hyp_alignment\<close> (one list for each input), lists indexed by the same
  position. \<open>next_state\<close> holds, for each model, the states of the live hypotheses; \<open>ctx\<close>
  holds, for each model, its contexts.
\<close>

record ('st, 'ctx) beam =
  sample :: "nat list list"
  sample_score :: "npf list"
  sample_word_probs :: "npf list list"
  alignments :: "real list list list list"
  hyp_graph :: "hyp_graph option"
  dead_k :: nat
  live_k :: nat
  hyp_samples :: "nat list list"
  hyp_scores :: "npf list"
  hyp_states :: "'st list list"
  word_probs :: "npf list list"
  hyp_alignment :: "real list list list list"
  next_w :: "int list"
  next_state :: "'st list list"
  ctx :: "'ctx list list"

text \<open>
  The state before the first step (lines 1086 to 1153), for \<open>stochastic=False\<close>: \<open>live_k = 1\<close>,
  whatever the beam width is. More than three inputs fail the assertion; a model that returns
  fewer contexts than there are inputs raises IndexError.
\<close>

datatype gen_error = AssertionError | Py py_error

definition gen_init ::
  "('x, 'st, 'ctx) seq_model list \<Rightarrow> 'x list \<Rightarrow> gen_flags \<Rightarrow> gen_error + ('st, 'ctx) beam" where
  "gen_init models xs fl =
     (if 3 < length xs then Inl AssertionError
      else if \<exists>m \<in> set models. length (snd (f_init m xs)) < length xs then Inl (Py IndexError)
      else
        (let live = 1 in
         Inr \<lparr> sample = [], sample_score = [], sample_word_probs = [],
               alignments = map (\<lambda>_. []) xs,
               hyp_graph = (if return_hyp_graph fl then Some [] else None),
               dead_k = 0, live_k = live,
               hyp_samples = replicate live [],
               hyp_scores = replicate live (Fin 0),
               hyp_states = [],
               word_probs = replicate live [],
               hyp_alignment = (if return_alignment fl then map (\<lambda>_. replicate live []) xs else []),
               next_w = replicate live (- 1),
               next_state = map (\<lambda>m. replicate live (fst (f_init m xs))) models,
               ctx = map (\<lambda>m. take (length xs) (snd (f_init m xs))) models \<rparr>))"

subsection \<open>One step of the search\<close>

text \<open>
  The calls \<open>f_next[i](*inps)\<close>, one for each model: with \<open>init_decoder\<close> the model gets the
  context of the first input only (\<open>ctxs[0]\<close>), otherwise the contexts of all inputs.
\<close>

definition model_outs ::
  "gen_flags \<Rightarrow> ('x, 'st, 'ctx) seq_model list \<Rightarrow> ('st, 'ctx) beam
     \<Rightarrow> (npf list list \<times> 'st list \<times> real list list list) list" where
  "model_outs fl models s =
     map (\<lambda>i. f_next (models ! i) (next_w s)
                 (if init_decoder fl then take 1 (ctx s ! i) else ctx s ! i) (next_state s ! i))
         [0..<length models]"

text \<open>
  The list \<open>next_p\<close> of the models' probability matrices as the scoring reads it: with
  \<open>suppress_unk\<close>, \<open>next_p[i][:, 1] = -numpy.inf\<close> has overwritten the column of word 1.
\<close>

definition next_p ::
  "gen_flags \<Rightarrow> (npf list list \<times> 'st list \<times> real list list list) list \<Rightarrow> npf list list list" where
  "next_p fl outs =
     map (\<lambda>(p, st, al). if suppress_unk fl then map (\<lambda>row. row[1 := NInf]) p else p) outs"

text \<open>\<open>voc_size = next_p[0].shape[1]\<close>; a matrix without rows has no columns here.\<close>

definition voc_size :: "npf list list list \<Rightarrow> nat" where
  "voc_size ps =
     (case ps of [] \<Rightarrow> 0 | p # _ \<Rightarrow> (case p of [] \<Rightarrow> 0 | row # _ \<Rightarrow> length row))"

text \<open>
  \<open>cand_scores = hyp_scores[:, None] - sum(numpy.log(next_p))\<close>: entry \<open>(ti, wi)\<close> is the score
  of hypothesis \<open>ti\<close> minus the sum, over the models, of the logarithm of the model's
  probability of word \<open>wi\<close> after hypothesis \<open>ti\<close>.
\<close>

definition cand_scores :: "npf list \<Rightarrow> npf list list list \<Rightarrow> npf list list" where
  "cand_scores hs ps =
     map (\<lambda>ti. map (\<lambda>wi. np_sub (hs ! ti) (np_sum (map (\<lambda>p. np_log (p ! ti ! wi)) ps)))
                    [0..<voc_size ps])
         [0..<length hs]"

text \<open>\<open>probs = sum(next_p) / num_models\<close>: the mean of the models' probabilities.\<close>

definition probs :: "nat \<Rightarrow> npf list list list \<Rightarrow> npf list list" where
  "probs live ps =
     map (\<lambda>ti. map (\<lambda>wi. np_div (np_sum (map (\<lambda>p. p ! ti ! wi) ps)) (length ps))
                    [0..<voc_size ps])
         [0..<live]"

text \<open>
  \<open>sum(dec_alphas[inputnum]) / num_models\<close>: the mean over the models of the attention
  matrices of one input.
\<close>

definition mean_matrix :: "nat \<Rightarrow> real list list list \<Rightarrow> real list list" where
  "mean_matrix live ms =
     map (\<lambda>ti. map (\<lambda>j. (\<Sum>m\<leftarrow>ms. m ! ti ! j) / real (length ms)) [0..<length (hd ms ! ti)])
         [0..<live]"

text \<open>
  What the models' outputs must look like for the array operations of a step to go through:
  every probability matrix has one row of \<open>voc_size\<close> entries for each live hypothesis; every
  model returns one state for each live hypothesis and, when alignments are asked for, an
  attention matrix with one row for each live hypothesis for each input, of the same shape in
  every model; the state has one score, one sample and one word probability list for each
  live hypothesis. Where this fails Python or numpy raises (an IndexError or a ValueError, or
  numpy broadcasts an array of one row); the model raises ValueError in all these cases.
\<close>

definition shapes_ok ::
  "nat \<Rightarrow> bool \<Rightarrow> ('st, 'ctx) beam \<Rightarrow> (npf list list \<times> 'st list \<times> real list list list) list \<Rightarrow> bool" where
  "shapes_ok num_src with_alignment s outs =
     (length (hyp_scores s) = live_k s \<and> length (hyp_samples s) = live_k s
      \<and> length (word_probs s) = live_k s
      \<and> (\<forall>(p, st, al) \<in> set outs.
            length p = live_k s
          \<and> (\<forall>row \<in> set p. length row = voc_size (map fst outs))
          \<and> length st = live_k s
          \<and> (with_alignment \<longrightarrow>
                num_src \<le> length al
              \<and> (\<forall>inputnum < num_src.
                    length (al ! inputnum) = live_k s
                  \<and> map length (al ! inputnum) = map length (snd (snd (hd outs)) ! inputnum))))
      \<and> (with_alignment \<longrightarrow>
            length (hyp_alignment s) = num_src
          \<and> (\<forall>h \<in> set (hyp_alignment s). length h = live_k s)))"

text \<open>
  \<open>numpy.argpartition\<close> is a parameter \<open>argpartition a kth\<close> of the search. What numpy promises
  of its result: it is a permutation of the indices of \<open>a\<close>, the entry at position \<open>kth\<close> is
  where a sort would put it, no entry before it is greater and no entry after it is smaller
  (in numpy's order, nan last). The order inside the two parts is not specified.
\<close>

definition argpartition_ok :: "npf list \<Rightarrow> nat \<Rightarrow> nat list \<Rightarrow> bool" where
  "argpartition_ok a kth r =
     (length r = length a \<and> distinct r \<and> (\<forall>i \<in> set r. i < length a)
      \<and> (\<forall>i < length r. (i < kth \<longrightarrow> np_le (a ! (r ! i)) (a ! (r ! kth)))
                        \<and> (kth < i \<longrightarrow> np_le (a ! (r ! kth)) (a ! (r ! i)))))"

definition partition_contract :: "(npf list \<Rightarrow> nat \<Rightarrow> nat list) \<Rightarrow> bool" where
  "partition_contract argpartition =
     (\<forall>a kth. kth < length a \<longrightarrow> argpartition_ok a kth (argpartition a kth))"

text \<open>
  \<open>ranks_flat = cand_flat.argpartition(k - dead_k - 1)[:(k - dead_k)]\<close>. numpy adds the length
  to a negative \<open>kth\<close> and raises ValueError when \<open>kth\<close> is out of bounds;
  \<open>numpy.zeros(k - dead_k)\<close> raises ValueError for a negative length.
\<close>

definition ranks_flat ::
  "(npf list \<Rightarrow> nat \<Rightarrow> nat list) \<Rightarrow> nat \<Rightarrow> nat \<Rightarrow> npf list \<Rightarrow> py_error + nat list" where
  "ranks_flat argpartition k dead cand =
     (let kth = int k - int dead - 1; n = int (length cand) in
      if kth < - n \<or> n \<le> kth \<or> k < dead then Inl ValueError
      else Inr (take (k - dead) (argpartition cand (nat (kth mod n)))))"

text \<open>
  One new hypothesis, made in the loop over \<open>zip(trans_indices, word_indices)\<close>: its sample,
  its score, its word probabilities, its state in each model and its alignment history for
  each input.
\<close>

record 'st new_hyp =
  nh_sample :: "nat list"
  nh_score :: npf
  nh_word_probs :: "npf list"
  nh_states :: "'st list"
  nh_alignment :: "real list list list"

definition expand ::
  "nat \<Rightarrow> bool \<Rightarrow> ('st, 'ctx) beam \<Rightarrow> npf list list list \<Rightarrow> 'st list list
     \<Rightarrow> real list list list \<Rightarrow> nat \<Rightarrow> 'st new_hyp" where
  "expand num_src with_alignment s ps new_state mean_alignment r =
     (let voc = voc_size ps; ti = r div voc; wi = r mod voc in
      \<lparr> nh_sample = hyp_samples s ! ti @ [wi],
        nh_score = concat (cand_scores (hyp_scores s) ps) ! r,
        nh_word_probs = word_probs s ! ti @ [concat (probs (live_k s) ps) ! r],
        nh_states = map (\<lambda>st. st ! ti) new_state,
        nh_alignment =
          (if with_alignment
           then map (\<lambda>inputnum. hyp_alignment s ! inputnum ! ti @ [mean_alignment ! inputnum ! ti])
                    [0..<num_src]
           else []) \<rparr>)"

definition mean_alignments ::
  "nat \<Rightarrow> bool \<Rightarrow> nat \<Rightarrow> (npf list list \<times> 'st list \<times> real list list list) list
     \<Rightarrow> real list list list" where
  "mean_alignments num_src with_alignment live outs =
     (if with_alignment
      then map (\<lambda>inputnum. mean_matrix live (map (\<lambda>(p, st, al). al ! inputnum) outs)) [0..<num_src]
      else [])"

text \<open>The flattened candidate scores of a step, and the new hypotheses selected from them.\<close>

definition cand_flat ::
  "gen_flags \<Rightarrow> ('st, 'ctx) beam \<Rightarrow> (npf list list \<times> 'st list \<times> real list list list) list
     \<Rightarrow> npf list" where
  "cand_flat fl s outs = concat (cand_scores (hyp_scores s) (next_p fl outs))"

definition new_hyps ::
  "(npf list \<Rightarrow> nat \<Rightarrow> nat list) \<Rightarrow> nat \<Rightarrow> nat \<Rightarrow> gen_flags \<Rightarrow> ('st, 'ctx) beam
     \<Rightarrow> (npf list list \<times> 'st list \<times> real list list list) list
     \<Rightarrow> py_error + 'st new_hyp list" where
  "new_hyps argpartition k num_src fl s outs =
     (case ranks_flat argpartition k (dead_k s) (cand_flat fl s outs) of
        Inl e \<Rightarrow> Inl e
      | Inr ranks \<Rightarrow>
          Inr (map (expand num_src (return_alignment fl) s (next_p fl outs)
                      (map (\<lambda>(p, st, al). st) outs)
                      (mean_alignments num_src (return_alignment fl) (live_k s) outs))
                   ranks))"

text \<open>
  The loop over the new hypotheses (\<open>check the finished samples\<close>): each one is added to the
  search graph when that is asked for; those that end in word 0 are appended to the finished
  lists and counted in \<open>dead_k\<close>, the others are the live hypotheses of the next step.
\<close>

definition split_new ::
  "nat \<Rightarrow> gen_flags \<Rightarrow> ('st, 'ctx) beam \<Rightarrow> 'st list list \<Rightarrow> 'st new_hyp list \<Rightarrow> ('st, 'ctx) beam" where
  "split_new num_src fl s new_state new =
     (let dead = filter (\<lambda>h. last (nh_sample h) = 0) new;
          live = filter (\<lambda>h. last (nh_sample h) \<noteq> 0) new
      in s\<lparr> sample := sample s @ map nh_sample dead,
             sample_score := sample_score s @ map nh_score dead,
             sample_word_probs := sample_word_probs s @ map nh_word_probs dead,
             alignments :=
               (if return_alignment fl
                then map (\<lambda>inputnum. alignments s ! inputnum
                                        @ map (\<lambda>h. nh_alignment h ! inputnum) dead)
                         [0..<num_src]
                else alignments s),
             hyp_graph :=
               (if return_hyp_graph fl
                then map_option
                       (\<lambda>g. g @ map (\<lambda>h. (last (nh_sample h), butlast (nh_sample h),
                                            last (nh_word_probs h), nh_score h)) new)
                       (hyp_graph s)
                else hyp_graph s),
             dead_k := dead_k s + length dead,
             live_k := length live,
             hyp_samples := map nh_sample live,
             hyp_scores := map nh_score live,
             hyp_states := map nh_states live,
             word_probs := map nh_word_probs live,
             hyp_alignment :=
               (if return_alignment fl
                then map (\<lambda>inputnum. map (\<lambda>h. nh_alignment h ! inputnum) live) [0..<num_src]
                else hyp_alignment s),
             next_state := new_state \<rparr>)"

text \<open>
  One pass through the body of \<open>for ii in xrange(maxlen)\<close> up to the two \<open>break\<close> tests: call
  the models, score and select the candidates, build the new hypotheses, and move those that
  end in word 0 to the finished lists. With \<open>init_decoder\<close>, \<open>dec_alphas\<close> is a list of one
  list of one entry, so storing the attention of a second input or of a second model raises
  IndexError (when there is a model to call). With no model at all the mean of the probabilities divides by zero. With
  \<open>suppress_unk\<close> a vocabulary of fewer than two words has no column 1 (IndexError).
\<close>

definition beam_step ::
  "(npf list \<Rightarrow> nat \<Rightarrow> nat list) \<Rightarrow> ('x, 'st, 'ctx) seq_model list \<Rightarrow> nat \<Rightarrow> nat \<Rightarrow> gen_flags
     \<Rightarrow> ('st, 'ctx) beam \<Rightarrow> py_error + ('st, 'ctx) beam" where
  "beam_step argpartition models k num_src fl s =
     (if length (next_state s) < length models \<or> length (ctx s) < length models
      then Inl IndexError
      else if init_decoder fl \<and> return_alignment fl \<and> models \<noteq> []
              \<and> (1 < num_src \<or> 1 < length models)
      then Inl IndexError
      else
        (let outs = model_outs fl models s
         in if outs = [] then Inl ZeroDivisionError
            else if \<not> shapes_ok num_src (return_alignment fl) s outs then Inl ValueError
            else if suppress_unk fl \<and> voc_size (map fst outs) < 2 then Inl IndexError
            else
              (case new_hyps argpartition k num_src fl s outs of
                 Inl e \<Rightarrow> Inl e
               | Inr new \<Rightarrow>
                   Inr (split_new num_src fl s (map (\<lambda>(p, st, al). st) outs) new))))"

subsection \<open>The loop and the result\<close>

text \<open>
  The end of a pass that does not leave the loop: the last words of the live hypotheses and
  their states, regrouped by model (\<open>zip(*hyp_states)\<close>), are the next input of the models.
\<close>

definition advance :: "('x, 'st, 'ctx) seq_model list \<Rightarrow> ('st, 'ctx) beam \<Rightarrow> ('st, 'ctx) beam" where
  "advance models s =
     s\<lparr> next_w := map (\<lambda>w. int (last w)) (hyp_samples s),
        next_state := map (\<lambda>i. map (\<lambda>h. h ! i) (hyp_states s)) [0..<length models] \<rparr>"

text \<open>
  The loop \<open>for ii in xrange(maxlen)\<close>. It leaves when no hypothesis is live or when \<open>k\<close>
  hypotheses are finished.
\<close>

fun beam_loop ::
  "(npf list \<Rightarrow> nat \<Rightarrow> nat list) \<Rightarrow> ('x, 'st, 'ctx) seq_model list \<Rightarrow> nat \<Rightarrow> nat \<Rightarrow> gen_flags
     \<Rightarrow> nat \<Rightarrow> ('st, 'ctx) beam \<Rightarrow> py_error + ('st, 'ctx) beam" where
  "beam_loop argpartition models k num_src fl 0 s = Inr s"
| "beam_loop argpartition models k num_src fl (Suc n) s =
     (case beam_step argpartition models k num_src fl s of
        Inl e \<Rightarrow> Inl e
      | Inr s' \<Rightarrow>
          if live_k s' < 1 then Inr s'
          else if k \<le> dead_k s' then Inr s'
          else beam_loop argpartition models k num_src fl n (advance models s'))"

text \<open>
  The states after each pass of the loop, in order: the history of a run. The loop returns
  the last of them (or the state it started from when \<open>maxlen\<close> is 0).
\<close>

fun beam_trace ::
  "(npf list \<Rightarrow> nat \<Rightarrow> nat list) \<Rightarrow> ('x, 'st, 'ctx) seq_model list \<Rightarrow> nat \<Rightarrow> nat \<Rightarrow> gen_flags
     \<Rightarrow> nat \<Rightarrow> ('st, 'ctx) beam \<Rightarrow> py_error + ('st, 'ctx) beam list" where
  "beam_trace argpartition models k num_src fl 0 s = Inr []"
| "beam_trace argpartition models k num_src fl (Suc n) s =
     (case beam_step argpartition models k num_src fl s of
        Inl e \<Rightarrow> Inl e
      | Inr s' \<Rightarrow>
          if live_k s' < 1 then Inr [s']
          else if k \<le> dead_k s' then Inr [s']
          else (case beam_trace argpartition models k num_src fl n (advance models s') of
                  Inl e \<Rightarrow> Inl e
                | Inr tr \<Rightarrow> Inr (s' # tr)))"

text \<open>What \<open>gen_sample\<close> returns.\<close>

record gen_result =
  r_sample :: "nat list list"
  r_score :: "npf list"
  r_word_probs :: "npf list list"
  r_alignments :: "real list list option list list"
  r_hyp_graph :: "hyp_graph option"

text \<open>
  After the loop (\<open>dump every remaining one\<close>): \<open>if not argmax and live_k > 0\<close>, the hypotheses
  still live are appended to the finished ones as they are. Without alignments, every input
  gets a list of \<open>None\<close>, one for each returned hypothesis.
\<close>

definition flush :: "nat \<Rightarrow> gen_flags \<Rightarrow> ('st, 'ctx) beam \<Rightarrow> py_error + gen_result" where
  "flush num_src fl s =
     (let dump = (\<not> argmax fl \<and> 0 < live_k s) in
      if dump \<and>
         (length (hyp_samples s) < live_k s \<or> length (hyp_scores s) < live_k s
          \<or> length (word_probs s) < live_k s
          \<or> (return_alignment fl \<and>
               (length (hyp_alignment s) < num_src \<or> length (alignments s) < num_src
                \<or> (\<exists>h \<in> set (take num_src (hyp_alignment s)). length h < live_k s))))
      then Inl IndexError
      else
        (let smp = sample s @ (if dump then take (live_k s) (hyp_samples s) else []) in
         Inr \<lparr> r_sample = smp,
               r_score = sample_score s @ (if dump then take (live_k s) (hyp_scores s) else []),
               r_word_probs =
                 sample_word_probs s @ (if dump then take (live_k s) (word_probs s) else []),
               r_alignments =
                 (if return_alignment fl
                  then map (\<lambda>inputnum.
                              map Some (alignments s ! inputnum
                                        @ (if dump \<and> inputnum < num_src
                                           then take (live_k s) (hyp_alignment s ! inputnum)
                                           else [])))
                           [0..<length (alignments s)]
                  else replicate num_src (replicate (length smp) None)),
               r_hyp_graph = hyp_graph s \<rparr>))"

definition gen_sample ::
  "(npf list \<Rightarrow> nat \<Rightarrow> nat list) \<Rightarrow> ('x, 'st, 'ctx) seq_model list \<Rightarrow> 'x list \<Rightarrow> nat \<Rightarrow> nat
     \<Rightarrow> gen_flags \<Rightarrow> gen_error + gen_result" where
  "gen_sample argpartition models xs k maxlen fl =
     (case gen_init models xs fl of
        Inl e \<Rightarrow> Inl e
      | Inr s0 \<Rightarrow>
          (case beam_loop argpartition models k (length xs) fl maxlen s0 of
             Inl e \<Rightarrow> Inl (Py e)
           | Inr s \<Rightarrow>
               (case flush (length xs) fl s of
                  Inl e \<Rightarrow> Inl (Py e)
                | Inr out \<Rightarrow> Inr out)))"

subsection \<open>Selection routines and notions for the properties\<close>

text \<open>
  Two selection routines that keep numpy's promise. \<open>argsort_stable\<close> sorts the indices by
  value and keeps equal values in index order. \<open>select_swap\<close> brings, for each position up to
  \<open>kth\<close>, the first smallest of the remaining entries to that position by a swap, which is how
  numpy's selection proceeds for a small \<open>kth\<close>.
\<close>

definition argsort_stable :: "npf list \<Rightarrow> nat \<Rightarrow> nat list" where
  "argsort_stable a kth = map snd (sort_key (\<lambda>(v, i). np_key v) (zip a [0..<length a]))"

definition min_pos :: "npf list \<Rightarrow> nat list \<Rightarrow> nat \<Rightarrow> nat" where
  "min_pos a ts i =
     fold (\<lambda>j m. if np_lt (a ! (ts ! j)) (a ! (ts ! m)) then j else m) [Suc i..<length ts] i"

definition swap_at :: "nat list \<Rightarrow> nat \<Rightarrow> nat \<Rightarrow> nat list" where
  "swap_at ts i j = ts[i := ts ! j, j := ts ! i]"

definition select_swap :: "npf list \<Rightarrow> nat \<Rightarrow> nat list" where
  "select_swap a kth = fold (\<lambda>i ts. swap_at ts i (min_pos a ts i)) [0..<Suc kth] [0..<length a]"

text \<open>
  Two notions used to state the properties of the search. A state is \<open>consistent\<close> when
  \<open>dead_k\<close> and \<open>live_k\<close> count the entries of the finished and of the live lists. A state
  \<open>extends\<close> an earlier one when the earlier finished lists (for the alignments, the list of
  each of the \<open>num_src\<close> inputs) are an initial part of its own: what was finished is still
  there, in the same place and unchanged.
\<close>

definition consistent :: "('st, 'ctx) beam \<Rightarrow> bool" where
  "consistent s =
     (length (sample s) = dead_k s \<and> length (sample_score s) = dead_k s
      \<and> length (sample_word_probs s) = dead_k s
      \<and> length (hyp_samples s) = live_k s \<and> length (hyp_scores s) = live_k s
      \<and> length (word_probs s) = live_k s)"

definition extends :: "nat \<Rightarrow> ('st, 'ctx) beam \<Rightarrow> ('st, 'ctx) beam \<Rightarrow> bool" where
  "extends num_src s s' =
     (prefix (sample s) (sample s') \<and> prefix (sample_score s) (sample_score s')
      \<and> prefix (sample_word_probs s) (sample_word_probs s')
      \<and> (\<forall>inputnum < num_src. prefix (alignments s ! inputnum) (alignments s' ! inputnum)))"

text \<open>
  A model behaves when, given one state for each previous word, it returns one row of \<open>V\<close>
  probabilities and one state for each previous word. A state is \<open>ready\<close> for a pass of the
  loop when it is consistent, the inputs of the models have the right lengths, some
  hypothesis is live, fewer than \<open>k\<close> are finished and there are enough candidates to select
  from.
\<close>

definition model_ok :: "nat \<Rightarrow> ('x, 'st, 'ctx) seq_model \<Rightarrow> bool" where
  "model_ok V m =
     (\<forall>w c st. length st = length w \<longrightarrow>
        (case f_next m w c st of
           (p, st', al) \<Rightarrow>
             length p = length w \<and> (\<forall>row \<in> set p. length row = V) \<and> length st' = length w))"

definition ready ::
  "nat \<Rightarrow> nat \<Rightarrow> ('x, 'st, 'ctx) seq_model list \<Rightarrow> ('st, 'ctx) beam \<Rightarrow> bool" where
  "ready V k models s =
     (consistent s \<and> length (next_w s) = live_k s \<and> length (next_state s) = length models
      \<and> (\<forall>st \<in> set (next_state s). length st = live_k s)
      \<and> length (ctx s) = length models \<and> 0 < live_k s \<and> dead_k s < k
      \<and> k - dead_k s \<le> live_k s * V)"


section \<open>Example inputs\<close>

definition example_translation :: "string translation" where
  "example_translation =
     \<lparr> source_words = [''das''], target_words = [''this''], sentence_id = Some 3,
       alignment = Some [[''0.9'', ''0.1''], [''0.2'', ''0.8'']], hypothesis_id = Some 1,
       aux_source_words = [], aux_alignment = [] \<rparr>"


definition example_processes :: "process list" where
  "example_processes =
     [\<lparr> pid = 100, is_alive = True, exitcode = None \<rparr>,
      \<lparr> pid = 101, is_alive = False, exitcode = Some 1 \<rparr>,
      \<lparr> pid = 102, is_alive = True, exitcode = None \<rparr>]"

text \<open>
  A model that returns the same word probabilities \<open>p\<close> after every hypothesis, keeps its
  states and reports no attention. The options all off, as \<open>gen_sample\<close> has them by default
  (but for \<open>stochastic\<close>).
\<close>

definition const_model :: "real list \<Rightarrow> (unit, unit, unit) seq_model" where
  "const_model p =
     \<lparr> f_init = (\<lambda>xs. ((), map (\<lambda>_. ()) xs)),
       f_next = (\<lambda>w c st. (map (\<lambda>_. map Fin p) w, st, [])) \<rparr>"

definition plain :: gen_flags where
  "plain = \<lparr> argmax = False, return_alignment = False, suppress_unk = False,
             return_hyp_graph = False, init_decoder = False \<rparr>"

text \<open>The state before the first step of a search with one model, one input, no alignments.\<close>

definition init_example :: "(unit, unit) beam" where
  "init_example =
     \<lparr> sample = [], sample_score = [], sample_word_probs = [], alignments = [[]],
       hyp_graph = None,
       dead_k = 0, live_k = 1, hyp_samples = [[]], hyp_scores = [Fin 0], hyp_states = [],
       word_probs = [[]], hyp_alignment = [], next_w = [- 1], next_state = [[()]],
       ctx = [[()]] \<rparr>"

text \<open>
  A model over the words 0 to 3 that gives word 2 the probability 1 at the start and word 0
  the probability 1 after word 2; every other probability is 0.
\<close>

definition step_model :: "(unit, unit, unit) seq_model" where
  "step_model =
     \<lparr> f_init = (\<lambda>xs. ((), map (\<lambda>_. ()) xs)),
       f_next = (\<lambda>w c st. (map (\<lambda>x. if x = 2 then [Fin 1, Fin 0, Fin 0, Fin 0]
                                        else [Fin 0, Fin 0, Fin 1, Fin 0]) w, st, [])) \<rparr>"


section \<open>Properties\<close>

subsection \<open>Translation.get_alignment_json\<close>

lemma row_links_ok:
  "j + length ws \<le> length src \<Longrightarrow>
   row_links str_of tw src sid tid j ws =
     Inr (map (\<lambda>(sj, w). (tw, src ! sj, str_of w, sid, tid)) (enumerate j ws))"
  by (induction ws arbitrary: j) auto

lemma all_links_ok:
  "i + length rows \<le> length tgt \<Longrightarrow> \<forall>row \<in> set rows. length row \<le> length src \<Longrightarrow>
   all_links str_of tgt src sid tid i rows = Inr (links_of str_of tgt src sid tid i rows)"
proof (induction rows arbitrary: i)
  case Nil
  then show ?case by (simp add: links_of_def)
next
  case (Cons row rows)
  have rest: "all_links str_of tgt src sid tid (Suc i) rows
                = Inr (links_of str_of tgt src sid tid (Suc i) rows)"
    using Cons by simp
  have row: "row_links str_of (tgt ! i) src sid tid 0 row
               = Inr (map (\<lambda>(sj, w). (tgt ! i, src ! sj, str_of w, sid, tid)) (enumerate 0 row))"
    using Cons.prems by (simp add: row_links_ok)
  have i: "i < length tgt" using Cons.prems by simp
  show ?case using rest row i by (simp add: links_of_def)
qed

text \<open>
  C9, as the code has it: for a translation with sentence id \<open>s\<close> and hypothesis id \<open>h\<close>, whose
  alignment has at most one row per target token (end marker included) and at most one weight
  per source token (end marker included), \<open>get_alignment_json\<close> returns one tuple for each
  target position and each source position, made of the target token, the source token, the
  weight as a string, the sentence id, and the SUM \<open>s + h\<close> of the sentence id and the
  hypothesis id.
\<close>

theorem get_alignment_json_links:
  assumes "hypothesis_id t = Some h" and "sentence_id t = Some s"
    and "alignment_source t aux = Inr (src, Some rows)"
    and "length rows \<le> length (target_words t) + 1"
    and "\<forall>row \<in> set rows. length row \<le> length src"
  shows "get_alignment_json str_of t aux =
           Inr (links_of str_of (target_words t @ [''</s>'']) src (Some s) (Some (s + h)) 0 rows)"
  using assms all_links_ok [of 0 rows "target_words t @ [''</s>'']" src str_of "Some s" "Some (s + h)"]
  by (simp add: get_alignment_json_def tid_of_def)

theorem get_alignment_json_links_witness:
  "get_alignment_json id example_translation None =
     Inr [(''this'', ''das'', ''0.9'', Some 3, Some 4), (''this'', ''</s>'', ''0.1'', Some 3, Some 4),
          (''</s>'', ''das'', ''0.2'', Some 3, Some 4), (''</s>'', ''</s>'', ''0.8'', Some 3, Some 4)]"
  using get_alignment_json_links [of example_translation 1 3 None "[''das'', ''</s>'']"
      "[[''0.9'', ''0.1''], [''0.2'', ''0.8'']]" id]
  by (simp add: example_translation_def alignment_source_def links_of_def)

text \<open>
  C9, as the specification states it, fails: the fifth element is not the hypothesis id. For
  sentence 3 and hypothesis 1 every tuple ends in 4.
\<close>

theorem get_alignment_json_hypothesis_id_counterexample:
  "hypothesis_id example_translation = Some 1 \<and>
   get_alignment_json id example_translation None \<noteq>
     Inr [(''this'', ''das'', ''0.9'', Some 3, Some 1), (''this'', ''</s>'', ''0.1'', Some 3, Some 1),
          (''</s>'', ''das'', ''0.2'', Some 3, Some 1), (''</s>'', ''</s>'', ''0.8'', Some 3, Some 1)]"
  by (simp add: example_translation_def get_alignment_json_def alignment_source_def tid_of_def)

subsection \<open>Translator._translate\<close>






subsection \<open>Translator._retrieve_jobs\<close>

text \<open>
  When the responses on the queue all belong to the request and carry each index below
  \<open>num_samples\<close> once, in any order, the results are yielded in the order of their indices,
  the entry of the request is evicted and the rest of the queue is left alone.
\<close>

lemma yield_from_all:
  "\<forall>i \<in> set idxs. i \<in> dom (map_of d) \<Longrightarrow>
   yield_from d idxs = (map (\<lambda>i. the (map_of d i)) idxs, True)"
  by (induction idxs) auto

lemma entry_touch [simp]: "entry (touch buf rid) rid = entry buf rid"
  by (simp add: entry_def touch_def split: option.splits)

lemma touch_delete [simp]: "(touch buf rid)(rid := None) = buf(rid := None)"
  by (simp add: touch_def split: option.splits)

lemma store_touch_delete [simp]: "(store (touch buf rid) rid i x)(rid := None) = buf(rid := None)"
  by (simp add: store_def)

lemma entry_store [simp]: "entry (store buf rid i x) rid = AList.update i x (entry buf rid)"
  by (simp add: entry_def store_def)

lemma retrieve_jobs_own_responses_from:
  assumes "distinct (map fst (entry buf rid))" and "distinct (map fst ps)"
    and "fst ` set (entry buf rid) \<inter> fst ` set ps = {}"
    and "fst ` set (entry buf rid) \<union> fst ` set ps = {..<n}"
  shows "retrieve_jobs n rid buf (map (\<lambda>(i, x). Resp rid i x) ps @ rest)
           = Yielded (map (\<lambda>i. the ((map_of (entry buf rid) ++ map_of ps) i)) [0..<n])
               (buf(rid := None)) rest"
  using assms
proof (induction ps arbitrary: buf)
  case Nil
  let ?d = "entry buf rid"
  have keys: "fst ` set ?d = {..<n}" using Nil.prems(4) by simp
  have "length ?d = card (fst ` set ?d)"
    using distinct_card [OF Nil.prems(1)] by simp
  then have len: "length ?d = n" using keys by simp
  have dom: "\<forall>i \<in> set [0..<n]. i \<in> dom (map_of ?d)"
    using keys by (auto simp: dom_map_of_conv_image_fst)
  have fin: "finish n rid (touch buf rid) evs
               = Yielded (map (\<lambda>i. the (map_of ?d i)) [0..<n]) (buf(rid := None)) evs" for evs
    using yield_from_all [OF dom] by (simp add: finish_def)
  have "retrieve_jobs n rid buf rest = finish n rid (touch buf rid) rest"
    using len by (cases rest) simp_all
  then show ?case by (simp only: fin list.map append_Nil map_of.simps map_add_empty)
next
  case (Cons p ps)
  obtain i x where p: "p = (i, x)" by (cases p)
  let ?d = "entry buf rid"
  let ?buf' = "store (touch buf rid) rid i x"
  have inot: "i \<notin> fst ` set ?d" using Cons.prems(3) p by auto
  have sub: "fst ` set ?d \<subseteq> {..<n}" and iin: "i \<in> {..<n}" using Cons.prems(4) p by auto
  have "fst ` set ?d \<subset> {..<n}" using sub iin inot by blast
  then have "card (fst ` set ?d) < card {..<n}" by (intro psubset_card_mono) simp_all
  moreover have "length ?d = card (fst ` set ?d)"
    using distinct_card [OF Cons.prems(1)] by simp
  ultimately have len: "length ?d < n" by simp
  have e': "entry ?buf' rid = AList.update i x ?d" by simp
  have d1: "distinct (map fst (entry ?buf' rid))" using Cons.prems(1) by (simp add: distinct_update)
  have d2: "distinct (map fst ps)" using Cons.prems(2) by simp
  have d3: "fst ` set (entry ?buf' rid) \<inter> fst ` set ps = {}"
  proof -
    have "fst ` set (AList.update i x ?d) = insert i (fst ` set ?d)"
      by (simp add: dom_update)
    moreover have "i \<notin> fst ` set ps" using Cons.prems(2) p by auto
    ultimately show ?thesis using Cons.prems(3) by auto
  qed
  have d4: "fst ` set (entry ?buf' rid) \<union> fst ` set ps = {..<n}"
  proof -
    have "fst ` set (AList.update i x ?d) = insert i (fst ` set ?d)"
      by (simp add: dom_update)
    then show ?thesis using Cons.prems(4) p by auto
  qed
  have ih: "retrieve_jobs n rid ?buf' (map (\<lambda>(i, x). Resp rid i x) ps @ rest)
           = Yielded (map (\<lambda>j. the ((map_of (entry ?buf' rid) ++ map_of ps) j)) [0..<n])
               (?buf'(rid := None)) rest"
    by (rule Cons.IH [OF d1 d2 d3 d4])
  have "i \<notin> dom (map_of ps)" using Cons.prems(2) p by (auto simp: dom_map_of_conv_image_fst)
  then have "map_of ps i = None" by auto
  then have "(map_of ?d)(i \<mapsto> x) ++ map_of ps = map_of ?d ++ (map_of ps)(i \<mapsto> x)"
    by (auto simp: map_add_def fun_eq_iff split: option.splits)
  then have maps: "map_of (entry ?buf' rid) ++ map_of ps = map_of ?d ++ map_of (p # ps)"
    unfolding e' update_conv' p by simp
  have "retrieve_jobs n rid buf (map (\<lambda>(i, x). Resp rid i x) (p # ps) @ rest)
          = retrieve_jobs n rid ?buf' (map (\<lambda>(i, x). Resp rid i x) ps @ rest)"
    using len by (simp add: p)
  also have "\<dots> = Yielded (map (\<lambda>j. the ((map_of (entry ?buf' rid) ++ map_of ps) j)) [0..<n])
               (?buf'(rid := None)) rest"
    by (rule ih)
  also have "\<dots> = Yielded (map (\<lambda>j. the ((map_of ?d ++ map_of (p # ps)) j)) [0..<n])
               (buf(rid := None)) rest"
    by (simp only: maps store_touch_delete)
  finally show ?case .
qed

lemma retrieve_jobs_own_responses:
  assumes "buf rid = None" and "distinct (map fst ps)" and "fst ` set ps = {..<n}"
  shows "retrieve_jobs n rid buf (map (\<lambda>(i, x). Resp rid i x) ps @ rest)
           = Yielded (map (\<lambda>i. the (map_of ps i)) [0..<n]) buf rest"
proof -
  have e: "entry buf rid = []" using assms(1) by (simp add: entry_def)
  have "retrieve_jobs n rid buf (map (\<lambda>(i, x). Resp rid i x) ps @ rest)
           = Yielded (map (\<lambda>i. the ((map_of (entry buf rid) ++ map_of ps) i)) [0..<n])
               (buf(rid := None)) rest"
    by (rule retrieve_jobs_own_responses_from) (use e assms in simp_all)
  moreover have "buf(rid := None) = buf" using assms(1) by auto
  ultimately show ?thesis using e by simp
qed


text \<open>
  C7 fails at a response that belongs to another request (above, the responses all belong to
  the request, and the results come back in the order of their indices). The coordinator
  collects one result for request A, and the first response on the queue is the result of
  index 0 of request B: the generator yields B's result to A's caller and evicts B's entry;
  A's own result stays on the queue.
\<close>

theorem retrieve_jobs_foreign_response:
  "retrieve_jobs 1 ''A'' Map.empty [Resp ''B'' 0 ''tB'', Resp ''A'' 0 ''tA'']
     = Yielded [''tB''] (Map.empty(''A'' \<mapsto> [])) [Resp ''A'' 0 ''tA'']"
  by (auto simp add: entry_def touch_def store_def finish_def fun_eq_iff)

text \<open>
  C8: while the coordinator waits for results (the entry of the request holds fewer than
  \<open>num_samples\<close> results), a timeout at which some process is dead with a non-zero exit code
  ends the call: every process of the pool is terminated, the first such process is logged
  with its process id and exit code, and the coordinator exits with status 1, whatever the
  queue would deliver afterwards.
\<close>

theorem retrieve_jobs_crash_exits:
  assumes "length (entry buf request_id) < num_samples"
    and "p \<in> set processes" and "\<not> is_alive p" and "exitcode p = Some c" and "c \<noteq> 0"
  shows "\<exists>q. find crashed processes = Some q \<and> q \<in> set processes \<and> \<not> is_alive q
           \<and> exitcode q \<noteq> Some 0
           \<and> retrieve_jobs num_samples request_id buf (Empty processes # evs)
               = Exited [0..<length processes] (pid q) (exitcode q) 1"
proof -
  have "crashed p" using assms(3,4,5) by (simp add: crashed_def)
  then have "find crashed processes \<noteq> None" using assms(2) by (auto simp: find_None_iff)
  then obtain q where q: "find crashed processes = Some q" by auto
  then have "q \<in> set processes" "crashed q"
    by (auto simp: find_Some_iff)
  then show ?thesis using q assms(1) by (auto simp: crashed_def)
qed

theorem retrieve_jobs_crash_exits_witness:
  "length (entry (Map.empty(''A'' \<mapsto> [(1, ''t1'')])) ''A'') < 2
   \<and> example_processes ! 1 \<in> set example_processes \<and> \<not> is_alive (example_processes ! 1)
   \<and> exitcode (example_processes ! 1) = Some 1
   \<and> retrieve_jobs 2 ''A'' (Map.empty(''A'' \<mapsto> [(1, ''t1'')]))
         (Empty example_processes # [Resp ''A'' 0 ''t0''])
       = Exited [0, 1, 2] 101 (Some 1) 1"
  using retrieve_jobs_crash_exits [where p = "example_processes ! 1" and c = 1
      and processes = example_processes and num_samples = 2 and request_id = "''A''"
      and buf = "Map.empty(''A'' \<mapsto> [(1, ''t1'')])" and evs = "[Resp ''A'' 0 ''t0'']"]
  by (simp add: example_processes_def entry_def crashed_def)

section \<open>Properties of the beam search\<close>

subsection \<open>Flattened matrices\<close>

lemma length_concat_rows:
  "length (concat (map (\<lambda>ti. map (f ti) [0..<V]) [0..<L])) = L * V"
  by (induction L) simp_all

lemma concat_rows_nth:
  "r < L * V \<Longrightarrow> concat (map (\<lambda>ti. map (f ti) [0..<V]) [0..<L]) ! r = f (r div V) (r mod V)"
proof (induction L)
  case 0
  then show ?case by simp
next
  case (Suc L)
  show ?case
  proof (cases "r < L * V")
    case True
    then show ?thesis using Suc.IH by (simp add: nth_append length_concat_rows)
  next
    case False
    then have lo: "L * V \<le> r" by simp
    have hi: "r < V * Suc L" using Suc.prems by (simp add: mult.commute)
    have d: "r div V = L"
      by (rule div_nat_eqI) (use lo hi in \<open>simp_all add: mult.commute\<close>)
    have m: "r mod V = r - L * V" using d by (simp add: modulo_nat_def)
    have "r - L * V < V" using lo hi by (simp add: mult.commute)
    then show ?thesis using False d m by (simp add: nth_append length_concat_rows)
  qed
qed

lemma length_cand_flat:
  "length (cand_flat fl s outs) = length (hyp_scores s) * voc_size (next_p fl outs)"
  by (simp add: cand_flat_def cand_scores_def length_concat_rows)

lemma cand_flat_nth:
  "r < length (hyp_scores s) * voc_size (next_p fl outs) \<Longrightarrow>
   cand_flat fl s outs ! r =
     np_sub (hyp_scores s ! (r div voc_size (next_p fl outs)))
       (np_sum (map (\<lambda>p. np_log (p ! (r div voc_size (next_p fl outs))
                                      ! (r mod voc_size (next_p fl outs))))
                    (next_p fl outs)))"
  unfolding cand_flat_def cand_scores_def by (rule concat_rows_nth)

lemma probs_flat_nth:
  "r < live * voc_size ps \<Longrightarrow>
   concat (probs live ps) ! r =
     np_div (np_sum (map (\<lambda>p. p ! (r div voc_size ps) ! (r mod voc_size ps)) ps)) (length ps)"
  unfolding probs_def by (rule concat_rows_nth)

subsection \<open>The order of the scores\<close>

lemma np_le_refl: "np_le a a"
  by (simp add: np_le_def)

lemma np_le_trans: "np_le a b \<Longrightarrow> np_le b c \<Longrightarrow> np_le a c"
  unfolding np_le_def by (rule order_trans)

lemma np_le_Fin: "np_le (Fin x) (Fin y) = (x \<le> y)"
  by (simp add: np_le_def less_eq_prod_def)

lemma voc_size_next_p: "voc_size (next_p fl outs) = voc_size (map fst outs)"
  by (cases outs; cases "fst (hd outs)")
     (auto simp: voc_size_def next_p_def split: prod.splits list.splits)

subsection \<open>The selected candidates\<close>

lemma argpartition_ok_set:
  assumes "argpartition_ok a kth r"
  shows "set r = {..<length a}"
proof -
  have sub: "set r \<subseteq> {..<length a}" using assms by (auto simp: argpartition_ok_def)
  have "card (set r) = length a" using assms by (simp add: argpartition_ok_def distinct_card)
  then have "card (set r) = card {..<length a}" by simp
  then show ?thesis using sub by (simp add: card_subset_eq)
qed

lemma ranks_flat_props:
  assumes "partition_contract argpartition"
    and "ranks_flat argpartition k dead c = Inr ranks"
  shows "dead \<le> k" and "length ranks = k - dead" and "distinct ranks"
    and "\<forall>r \<in> set ranks. r < length c"
    and "\<forall>r \<in> set ranks. \<forall>q < length c. q \<notin> set ranks \<longrightarrow> np_le (c ! r) (c ! q)"
proof -
  define kth where "kth = int k - int dead - 1"
  define n where "n = int (length c)"
  have ok: "\<not> kth < - n" "kth < n" "\<not> k < dead"
    and ranks: "ranks = take (k - dead) (argpartition c (nat (kth mod n)))"
    using assms(2) unfolding ranks_flat_def kth_def n_def Let_def
    by (auto split: if_splits)
  show dk: "dead \<le> k" using ok(3) by simp
  have npos: "0 < n" using ok(1,2) by linarith
  define K where "K = nat (kth mod n)"
  have K: "K < length c" using npos unfolding K_def n_def
    by (metis nat_less_iff pos_mod_bound pos_mod_sign n_def of_nat_0_less_iff zless_nat_conj)
  define rs where "rs = argpartition c K"
  have rs: "argpartition_ok c K rs" using assms(1) K by (simp add: partition_contract_def rs_def)
  have r_eq: "ranks = take (k - dead) rs" using ranks by (simp add: rs_def K_def)
  have len_rs: "length rs = length c" using rs by (simp add: argpartition_ok_def)
  have K_eq: "K = k - dead - 1" if "dead < k"
  proof -
    have kth_nat: "kth = int (k - dead - 1)" using that by (simp add: kth_def)
    then have "kth mod n = kth" using ok(2) by simp
    then show ?thesis using kth_nat by (simp add: K_def)
  qed
  have bound: "k - dead \<le> length c"
  proof (cases "dead < k")
    case True
    then show ?thesis using K K_eq by simp
  next
    case False
    then show ?thesis by simp
  qed
  show "length ranks = k - dead" using r_eq len_rs bound by simp
  show "distinct ranks" using r_eq rs by (simp add: argpartition_ok_def)
  show "\<forall>r \<in> set ranks. r < length c"
    using r_eq rs by (auto simp: argpartition_ok_def dest: in_set_takeD)
  show "\<forall>r \<in> set ranks. \<forall>q < length c. q \<notin> set ranks \<longrightarrow> np_le (c ! r) (c ! q)"
  proof (intro ballI allI impI)
    fix r q assume r: "r \<in> set ranks" and q: "q < length c" and nq: "q \<notin> set ranks"
    have kd: "dead < k" using r r_eq by (cases "dead < k") auto
    obtain i where i: "i < k - dead" "i < length rs" "r = rs ! i"
      using r r_eq by (auto simp: in_set_conv_nth)
    have "q \<in> set rs" using argpartition_ok_set [OF rs] q by simp
    then obtain j where j: "j < length rs" "q = rs ! j" by (auto simp: in_set_conv_nth)
    have "\<not> j < k - dead"
    proof
      assume lt: "j < k - dead"
      have "take (k - dead) rs ! j = rs ! j" using lt by simp
      moreover have "j < length (take (k - dead) rs)" using lt j(1) by simp
      ultimately have "rs ! j \<in> set (take (k - dead) rs)" by (metis nth_mem)
      then show False using nq j(2) r_eq by simp
    qed
    then have jK: "K < j" using K_eq [OF kd] kd by simp
    have iK: "i \<le> K" using i(1) K_eq [OF kd] by simp
    have a: "np_le (c ! (rs ! i)) (c ! (rs ! K))"
    proof (cases "i < K")
      case True
      then show ?thesis using rs i(2) by (simp add: argpartition_ok_def)
    next
      case False
      then show ?thesis using iK by (simp add: np_le_refl)
    qed
    have b: "np_le (c ! (rs ! K)) (c ! (rs ! j))"
      using rs j(1) jK by (simp add: argpartition_ok_def)
    show "np_le (c ! r) (c ! q)" using np_le_trans [OF a b] i(3) j(2) by simp
  qed
qed


subsection \<open>One step\<close>

lemma beam_step_Inr:
  assumes "beam_step argpartition models k num_src fl s = Inr s'"
  shows "\<exists>new. model_outs fl models s \<noteq> []
           \<and> shapes_ok num_src (return_alignment fl) s (model_outs fl models s)
           \<and> new_hyps argpartition k num_src fl s (model_outs fl models s) = Inr new
           \<and> s' = split_new num_src fl s (map (\<lambda>(p, st, al). st) (model_outs fl models s)) new"
  using assms unfolding beam_step_def Let_def
  by (auto split: if_splits sum.splits)

lemma new_hyps_Inr:
  assumes "new_hyps argpartition k num_src fl s outs = Inr new"
  shows "\<exists>ranks. ranks_flat argpartition k (dead_k s) (cand_flat fl s outs) = Inr ranks
           \<and> new = map (expand num_src (return_alignment fl) s (next_p fl outs) (map (\<lambda>(p, st, al). st) outs)
                          (mean_alignments num_src (return_alignment fl) (live_k s) outs)) ranks"
  using assms unfolding new_hyps_def by (auto split: sum.splits)

lemma new_hyps_length:
  assumes "partition_contract argpartition"
    and "new_hyps argpartition k num_src fl s outs = Inr new"
  shows "length new = k - dead_k s" and "dead_k s \<le> k"
proof -
  obtain ranks where r: "ranks_flat argpartition k (dead_k s) (cand_flat fl s outs) = Inr ranks"
    and n: "new = map (expand num_src (return_alignment fl) s (next_p fl outs) (map (\<lambda>(p, st, al). st) outs)
                          (mean_alignments num_src (return_alignment fl) (live_k s) outs)) ranks"
    using new_hyps_Inr [OF assms(2)] by blast
  show "length new = k - dead_k s" using ranks_flat_props(2) [OF assms(1) r] n by simp
  show "dead_k s \<le> k" using ranks_flat_props(1) [OF assms(1) r] .
qed

lemma new_hyps_children:
  assumes "partition_contract argpartition"
    and "length (hyp_scores s) = live_k s"
    and "new_hyps argpartition k num_src fl s outs = Inr new"
    and "h \<in> set new"
  shows "\<exists>ti wi. ti < live_k s \<and> wi < voc_size (next_p fl outs)
           \<and> nh_sample h = hyp_samples s ! ti @ [wi]
           \<and> nh_score h = np_sub (hyp_scores s ! ti)
                                  (np_sum (map (\<lambda>p. np_log (p ! ti ! wi)) (next_p fl outs)))
           \<and> nh_word_probs h =
               word_probs s ! ti
                 @ [np_div (np_sum (map (\<lambda>p. p ! ti ! wi) (next_p fl outs))) (length outs)]"
proof -
  let ?V = "voc_size (next_p fl outs)"
  obtain ranks where r: "ranks_flat argpartition k (dead_k s) (cand_flat fl s outs) = Inr ranks"
    and n: "new = map (expand num_src (return_alignment fl) s (next_p fl outs) (map (\<lambda>(p, st, al). st) outs)
                          (mean_alignments num_src (return_alignment fl) (live_k s) outs)) ranks"
    using new_hyps_Inr [OF assms(3)] by blast
  obtain q where q: "q \<in> set ranks"
    and h: "h = expand num_src (return_alignment fl) s (next_p fl outs) (map (\<lambda>(p, st, al). st) outs)
                 (mean_alignments num_src (return_alignment fl) (live_k s) outs) q"
    using assms(4) n by auto
  have "q < length (cand_flat fl s outs)" using ranks_flat_props(4) [OF assms(1) r] q by simp
  then have qlt: "q < live_k s * ?V" using assms(2) by (simp add: length_cand_flat)
  then have Vpos: "0 < ?V" by (cases "?V = 0") simp_all
  have ti: "q div ?V < live_k s" using qlt Vpos by (simp add: less_mult_imp_div_less)
  have wi: "q mod ?V < ?V" using Vpos by simp
  have sc: "nh_score h = np_sub (hyp_scores s ! (q div ?V))
              (np_sum (map (\<lambda>p. np_log (p ! (q div ?V) ! (q mod ?V))) (next_p fl outs)))"
    using cand_flat_nth [of q s fl outs] qlt assms(2) h
    by (simp add: expand_def Let_def cand_flat_def)
  have lp: "length (next_p fl outs) = length outs" by (simp add: next_p_def)
  have wp: "nh_word_probs h = word_probs s ! (q div ?V)
              @ [np_div (np_sum (map (\<lambda>p. p ! (q div ?V) ! (q mod ?V)) (next_p fl outs)))
                        (length outs)]"
    using probs_flat_nth [of q "live_k s" "next_p fl outs"] qlt h lp
    by (simp add: expand_def Let_def)
  have sm: "nh_sample h = hyp_samples s ! (q div ?V) @ [q mod ?V]"
    using h by (simp add: expand_def Let_def)
  show ?thesis using ti wi sc wp sm by blast
qed

lemma split_new_fields:
  "sample (split_new num_src fl s ns new) =
     sample s @ map nh_sample (filter (\<lambda>h. last (nh_sample h) = 0) new)"
  "sample_score (split_new num_src fl s ns new) =
     sample_score s @ map nh_score (filter (\<lambda>h. last (nh_sample h) = 0) new)"
  "sample_word_probs (split_new num_src fl s ns new) =
     sample_word_probs s @ map nh_word_probs (filter (\<lambda>h. last (nh_sample h) = 0) new)"
  "dead_k (split_new num_src fl s ns new) =
     dead_k s + length (filter (\<lambda>h. last (nh_sample h) = 0) new)"
  "live_k (split_new num_src fl s ns new) = length (filter (\<lambda>h. last (nh_sample h) \<noteq> 0) new)"
  "hyp_samples (split_new num_src fl s ns new) =
     map nh_sample (filter (\<lambda>h. last (nh_sample h) \<noteq> 0) new)"
  "hyp_scores (split_new num_src fl s ns new) =
     map nh_score (filter (\<lambda>h. last (nh_sample h) \<noteq> 0) new)"
  "word_probs (split_new num_src fl s ns new) =
     map nh_word_probs (filter (\<lambda>h. last (nh_sample h) \<noteq> 0) new)"
  by (simp_all add: split_new_def Let_def)

lemma split_new_alignments:
  "inputnum < num_src \<Longrightarrow>
   prefix (alignments s ! inputnum) (alignments (split_new num_src fl s ns new) ! inputnum)"
  by (simp add: split_new_def Let_def)

lemma split_new_total:
  "dead_k (split_new num_src fl s ns new) + live_k (split_new num_src fl s ns new)
     = dead_k s + length new"
  using sum_length_filter_compl [of "\<lambda>h. last (nh_sample h) = 0" new]
  by (simp add: split_new_fields)

lemma beam_step_total:
  assumes "partition_contract argpartition"
    and "beam_step argpartition models k num_src fl s = Inr s'"
  shows "dead_k s' + live_k s' = k"
proof -
  obtain new where n: "new_hyps argpartition k num_src fl s (model_outs fl models s) = Inr new"
    and s': "s' = split_new num_src fl s (map (\<lambda>(p, st, al). st) (model_outs fl models s)) new"
    using beam_step_Inr [OF assms(2)] by blast
  show ?thesis
    using new_hyps_length [OF assms(1) n] s' by (simp add: split_new_total)
qed

lemma beam_step_consistent:
  assumes "consistent s" and "beam_step argpartition models k num_src fl s = Inr s'"
  shows "consistent s'"
proof -
  obtain new where
    s': "s' = split_new num_src fl s (map (\<lambda>(p, st, al). st) (model_outs fl models s)) new"
    using beam_step_Inr [OF assms(2)] by blast
  show ?thesis using assms(1) unfolding s' consistent_def by (simp add: split_new_fields)
qed

lemma beam_step_extends:
  assumes "beam_step argpartition models k num_src fl s = Inr s'"
  shows "extends num_src s s'"
proof -
  obtain new where
    s': "s' = split_new num_src fl s (map (\<lambda>(p, st, al). st) (model_outs fl models s)) new"
    using beam_step_Inr [OF assms] by blast
  show ?thesis unfolding s' extends_def by (simp add: split_new_fields split_new_alignments)
qed

lemma extends_refl: "extends n s s"
  by (simp add: extends_def)

lemma extends_trans: "extends n a b \<Longrightarrow> extends n b c \<Longrightarrow> extends n a c"
  unfolding extends_def by (meson prefix_order.order_trans)

lemma beam_step_finished_end:
  assumes "partition_contract argpartition"
    and "\<forall>h \<in> set (sample s). h \<noteq> [] \<and> last h = 0"
    and "beam_step argpartition models k num_src fl s = Inr s'"
  shows "\<forall>h \<in> set (sample s'). h \<noteq> [] \<and> last h = 0"
proof -
  obtain new where ok: "shapes_ok num_src (return_alignment fl) s (model_outs fl models s)"
    and n: "new_hyps argpartition k num_src fl s (model_outs fl models s) = Inr new"
    and s': "s' = split_new num_src fl s (map (\<lambda>(p, st, al). st) (model_outs fl models s)) new"
    using beam_step_Inr [OF assms(3)] by blast
  have len: "length (hyp_scores s) = live_k s" using ok by (simp add: shapes_ok_def)
  have "nh_sample h \<noteq> []" if "h \<in> set new" for h
    using new_hyps_children [OF assms(1) len n that] by auto
  then show ?thesis using assms(2) unfolding s' by (auto simp: split_new_fields)
qed


subsection \<open>The loop and its history\<close>

lemma advance_fields [simp]:
  "sample (advance models s) = sample s"
  "sample_score (advance models s) = sample_score s"
  "sample_word_probs (advance models s) = sample_word_probs s"
  "dead_k (advance models s) = dead_k s"
  "live_k (advance models s) = live_k s"
  "hyp_samples (advance models s) = hyp_samples s"
  "hyp_scores (advance models s) = hyp_scores s"
  "word_probs (advance models s) = word_probs s"
  "alignments (advance models s) = alignments s"
  "hyp_graph (advance models s) = hyp_graph s"
  by (simp_all add: advance_def)

lemma advance_consistent [simp]: "consistent (advance models s) = consistent s"
  by (simp add: consistent_def)

lemma advance_extends [simp]: "extends n (advance models s) s' = extends n s s'"
  by (simp add: extends_def)

lemma beam_loop_trace:
  assumes "beam_loop argpartition models k num_src fl n s = Inr sf"
  shows "\<exists>tr. beam_trace argpartition models k num_src fl n s = Inr tr
           \<and> length tr \<le> n
           \<and> (n = 0 \<longrightarrow> tr = [] \<and> sf = s)
           \<and> (0 < n \<longrightarrow> tr \<noteq> [] \<and> (sf = last tr \<or> sf = advance models (last tr)))
           \<and> (\<forall>s' \<in> set (butlast tr). 0 < live_k s' \<and> dead_k s' < k)
           \<and> (length tr < n \<longrightarrow> live_k (last tr) = 0 \<or> k \<le> dead_k (last tr))"
  using assms
proof (induction n arbitrary: s)
  case 0
  then show ?case by simp
next
  case (Suc n)
  obtain s' where step: "beam_step argpartition models k num_src fl s = Inr s'"
    using Suc.prems by (auto split: sum.splits)
  show ?case
  proof (cases "live_k s' < 1 \<or> k \<le> dead_k s'")
    case True
    then have "beam_trace argpartition models k num_src fl (Suc n) s = Inr [s']"
      using step by auto
    moreover have "sf = s'" using Suc.prems step True by (auto split: if_splits)
    ultimately show ?thesis using True by auto
  next
    case False
    then have rest: "beam_loop argpartition models k num_src fl n (advance models s') = Inr sf"
      using Suc.prems step by auto
    obtain tr where tr: "beam_trace argpartition models k num_src fl n (advance models s') = Inr tr"
        "length tr \<le> n" "n = 0 \<longrightarrow> tr = [] \<and> sf = advance models s'"
        "0 < n \<longrightarrow> tr \<noteq> [] \<and> (sf = last tr \<or> sf = advance models (last tr))"
        "\<forall>s' \<in> set (butlast tr). 0 < live_k s' \<and> dead_k s' < k"
        "length tr < n \<longrightarrow> live_k (last tr) = 0 \<or> k \<le> dead_k (last tr)"
      using Suc.IH [OF rest] by blast
    have full: "beam_trace argpartition models k num_src fl (Suc n) s = Inr (s' # tr)"
      using step False tr(1) by auto
    have a: "length (s' # tr) \<le> Suc n" using tr(2) by simp
    have b: "sf = last (s' # tr) \<or> sf = advance models (last (s' # tr))"
      using tr(3,4) by (cases "n = 0") auto
    have c: "\<forall>x \<in> set (butlast (s' # tr)). 0 < live_k x \<and> dead_k x < k"
      using tr(5) False by auto
    have d: "length (s' # tr) < Suc n \<longrightarrow> live_k (last (s' # tr)) = 0 \<or> k \<le> dead_k (last (s' # tr))"
      using tr(2,4,6) by (cases "n = 0") auto
    show ?thesis using full a b c d by auto
  qed
qed

lemma beam_trace_invariant:
  assumes "partition_contract argpartition"
    and "consistent s" and "\<forall>h \<in> set (sample s). h \<noteq> [] \<and> last h = 0"
    and "beam_trace argpartition models k num_src fl n s = Inr tr"
  shows "(\<forall>s' \<in> set tr. consistent s' \<and> dead_k s' + live_k s' = k
              \<and> (\<forall>h \<in> set (sample s'). h \<noteq> [] \<and> last h = 0) \<and> extends num_src s s')
         \<and> sorted_wrt (extends num_src) tr"
  using assms(2,3,4)
proof (induction n arbitrary: s tr)
  case 0
  then show ?case by simp
next
  case (Suc n)
  obtain s' where step: "beam_step argpartition models k num_src fl s = Inr s'"
    using Suc.prems(3) by (auto split: sum.splits)
  have c: "consistent s'" using beam_step_consistent [OF Suc.prems(1) step] .
  have t: "dead_k s' + live_k s' = k" using beam_step_total [OF assms(1) step] .
  have e: "\<forall>h \<in> set (sample s'). h \<noteq> [] \<and> last h = 0"
    using beam_step_finished_end [OF assms(1) Suc.prems(2) step] .
  have x: "extends num_src s s'" using beam_step_extends [OF step] .
  show ?case
  proof (cases "live_k s' < 1 \<or> k \<le> dead_k s'")
    case True
    then have "tr = [s']" using Suc.prems(3) step by (auto split: if_splits)
    then show ?thesis using c t e x by simp
  next
    case False
    then obtain tr' where tr': "beam_trace argpartition models k num_src fl n (advance models s') = Inr tr'"
      and tr: "tr = s' # tr'"
      using Suc.prems(3) step by (auto split: sum.splits)
    have ih: "(\<forall>u \<in> set tr'. consistent u \<and> dead_k u + live_k u = k
                  \<and> (\<forall>h \<in> set (sample u). h \<noteq> [] \<and> last h = 0) \<and> extends num_src (advance models s') u)
              \<and> sorted_wrt (extends num_src) tr'"
      by (rule Suc.IH) (use c e tr' in simp_all)
    have "\<forall>u \<in> set tr'. extends num_src s u" using ih x extends_trans by fastforce
    then show ?thesis using ih c t e x tr by simp
  qed
qed

lemma gen_init_consistent:
  assumes "gen_init models xs fl = Inr s0"
  shows "consistent s0" and "sample s0 = []" and "live_k s0 = 1" and "dead_k s0 = 0"
    and "hyp_samples s0 = [[]]" and "hyp_scores s0 = [Fin 0]" and "word_probs s0 = [[]]"
    and "next_w s0 = [- 1]" and "sample_score s0 = []" and "sample_word_probs s0 = []"
  using assms by (auto simp: gen_init_def consistent_def Let_def split: if_splits)

lemma flush_Inr:
  assumes "consistent s" and "flush num_src fl s = Inr out"
  shows "r_sample out = sample s @ (if argmax fl then [] else hyp_samples s)"
    and "r_score out = sample_score s @ (if argmax fl then [] else hyp_scores s)"
    and "r_word_probs out = sample_word_probs s @ (if argmax fl then [] else word_probs s)"
    and "r_hyp_graph out = hyp_graph s"
  using assms by (auto simp: flush_def consistent_def Let_def split: if_splits)


subsection \<open>The sorting selection keeps the promise\<close>

lemma argsort_stable_contract: "partition_contract argsort_stable"
  unfolding partition_contract_def
proof (intro allI impI)
  fix a :: "npf list" and kth assume "kth < length a"
  define zs where "zs = sort_key (\<lambda>(v, i). np_key v) (zip a [0..<length a])"
  have r: "argsort_stable a kth = map snd zs" by (simp add: argsort_stable_def zs_def)
  have sz: "set zs = set (zip a [0..<length a])" by (simp add: zs_def)
  have len: "length zs = length a" by (simp add: zs_def)
  have pair: "fst z = a ! snd z" if "z \<in> set zs" for z
    using that sz by (auto simp: set_zip)
  have inj: "inj_on snd (set zs)"
    by (rule inj_onI) (metis pair prod.expand)
  have "distinct zs" by (simp add: zs_def distinct_zipI2)
  then have dist: "distinct (map snd zs)" using inj by (simp add: distinct_map)
  have st: "set (map snd zs) = {..<length a}"
  proof
    show "set (map snd zs) \<subseteq> {..<length a}" using sz by (auto simp: set_zip)
    show "{..<length a} \<subseteq> set (map snd zs)"
    proof
      fix i assume "i \<in> {..<length a}"
      then have "(a ! i, i) \<in> set (zip a [0..<length a])" by (auto simp: set_zip)
      then have "snd (a ! i, i) \<in> snd ` set zs" using sz by blast
      then show "i \<in> set (map snd zs)" by simp
    qed
  qed
  have srt: "sorted (map (\<lambda>(v, i). np_key v) zs)" by (simp add: zs_def)
  have mono: "np_le (a ! (map snd zs ! i)) (a ! (map snd zs ! j))"
    if "i \<le> j" "j < length zs" for i j
  proof -
    have "map (\<lambda>(v, i). np_key v) zs ! i \<le> map (\<lambda>(v, i). np_key v) zs ! j"
      using srt that by (simp add: sorted_iff_nth_mono del: nth_map)
    moreover have "zs ! i \<in> set zs" "zs ! j \<in> set zs" using that by simp_all
    ultimately show ?thesis using that pair [of "zs ! i"] pair [of "zs ! j"]
      by (simp add: np_le_def case_prod_beta)
  qed
  have "argpartition_ok a kth (map snd zs)"
    unfolding argpartition_ok_def using len dist st mono \<open>kth < length a\<close>
    by (auto simp: less_imp_le)
  then show "argpartition_ok a kth (argsort_stable a kth)" using r by simp
qed


lemmas run_defs = gen_sample_def gen_init_def beam_step_def model_outs_def shapes_ok_def
  next_p_def new_hyps_def cand_flat_def ranks_flat_def expand_def cand_scores_def probs_def
  mean_alignments_def split_new_def advance_def flush_def voc_size_def const_model_def
  plain_def np_sub_def np_sum_def argsort_stable_def Let_def

lemma ln_pow2: "ln 4 = 2 * ln (2::real)" "ln 8 = 3 * ln (2::real)" "ln 16 = 4 * ln (2::real)"
  using ln_realpow [of 2 2] ln_realpow [of 2 3] ln_realpow [of 2 4] by simp_all

subsection \<open>The initial state\<close>

text \<open>
  C3, as the code has it: with at most three inputs and models that return a context for each
  input, a non-stochastic search starts, whatever the beam width \<open>k\<close> and the options are, from
  exactly one live hypothesis, which is empty, has cumulative cost 0 and start token \<open>-1\<close>;
  nothing is finished.
\<close>

theorem gen_init_single_hypothesis:
  assumes "length xs \<le> 3" and "\<forall>m \<in> set models. length xs \<le> length (snd (f_init m xs))"
  shows "\<exists>s0. gen_init models xs fl = Inr s0 \<and> live_k s0 = 1 \<and> hyp_samples s0 = [[]]
           \<and> hyp_scores s0 = [Fin 0] \<and> word_probs s0 = [[]] \<and> next_w s0 = [- 1]
           \<and> dead_k s0 = 0 \<and> sample s0 = []"
proof -
  have "\<not> (\<exists>m \<in> set models. length (snd (f_init m xs)) < length xs)"
    using assms(2) by (auto simp: not_less)
  then show ?thesis using assms(1) by (simp add: gen_init_def Let_def)
qed

theorem gen_init_single_hypothesis_witness:
  "length [()] \<le> 3 \<and> gen_init [const_model [1/2, 1/2]] [()] plain = Inr init_example
   \<and> live_k init_example = 1 \<and> hyp_samples init_example = [[]]"
  using gen_init_single_hypothesis [of "[()]" "[const_model [1/2, 1/2]]" plain]
  by (simp add: gen_init_def const_model_def init_example_def plain_def)

text \<open>
  C3, as the specification states it, fails: with beam width 3 the live set at the start has
  one hypothesis, not three; a search of no step (\<open>maxlen = 0\<close>) returns that one hypothesis.
\<close>

theorem gen_init_beam_width_counterexample:
  "gen_init [const_model [1/2, 1/2]] [()] plain = Inr init_example
   \<and> length (hyp_samples init_example) \<noteq> 3
   \<and> gen_sample argsort_stable [const_model [1/2, 1/2]] [()] 3 0 plain
       = Inr \<lparr> r_sample = [[]], r_score = [Fin 0], r_word_probs = [[]], r_alignments = [[None]],
               r_hyp_graph = None \<rparr>"
  by (simp add: gen_sample_def gen_init_def const_model_def init_example_def flush_def plain_def)

subsection \<open>Candidate scores of an ensemble\<close>

lemma expand_fields:
  assumes "r < live_k s * voc_size ps" and "length (hyp_scores s) = live_k s"
  shows "nh_sample (expand num_src ra s ps ns ma r)
           = hyp_samples s ! (r div voc_size ps) @ [r mod voc_size ps]"
    and "nh_score (expand num_src ra s ps ns ma r)
           = np_sub (hyp_scores s ! (r div voc_size ps))
               (np_sum (map (\<lambda>p. np_log (p ! (r div voc_size ps) ! (r mod voc_size ps))) ps))"
    and "nh_word_probs (expand num_src ra s ps ns ma r)
           = word_probs s ! (r div voc_size ps)
               @ [np_div (np_sum (map (\<lambda>p. p ! (r div voc_size ps) ! (r mod voc_size ps)) ps))
                         (length ps)]"
proof -
  show "nh_sample (expand num_src ra s ps ns ma r)
           = hyp_samples s ! (r div voc_size ps) @ [r mod voc_size ps]"
    by (simp add: expand_def Let_def)
  have "concat (cand_scores (hyp_scores s) ps) ! r
          = np_sub (hyp_scores s ! (r div voc_size ps))
               (np_sum (map (\<lambda>p. np_log (p ! (r div voc_size ps) ! (r mod voc_size ps))) ps))"
    unfolding cand_scores_def using assms by (intro concat_rows_nth) simp
  then show "nh_score (expand num_src ra s ps ns ma r)
           = np_sub (hyp_scores s ! (r div voc_size ps))
               (np_sum (map (\<lambda>p. np_log (p ! (r div voc_size ps) ! (r mod voc_size ps))) ps))"
    by (simp add: expand_def Let_def)
  show "nh_word_probs (expand num_src ra s ps ns ma r)
           = word_probs s ! (r div voc_size ps)
               @ [np_div (np_sum (map (\<lambda>p. p ! (r div voc_size ps) ! (r mod voc_size ps)) ps))
                         (length ps)]"
    using probs_flat_nth [OF assms(1)] by (simp add: expand_def Let_def)
qed

lemma children_fields:
  assumes "\<forall>r \<in> set ranks. r < live_k s * voc_size ps" and "length (hyp_scores s) = live_k s"
  shows "map nh_sample (filter (\<lambda>h. P (last (nh_sample h)))
            (map (expand num_src ra s ps ns ma) ranks))
         = map (\<lambda>r. hyp_samples s ! (r div voc_size ps) @ [r mod voc_size ps])
             (filter (\<lambda>r. P (r mod voc_size ps)) ranks)"
    and "map nh_score (filter (\<lambda>h. P (last (nh_sample h)))
            (map (expand num_src ra s ps ns ma) ranks))
         = map (\<lambda>r. np_sub (hyp_scores s ! (r div voc_size ps))
                      (np_sum (map (\<lambda>p. np_log (p ! (r div voc_size ps) ! (r mod voc_size ps))) ps)))
             (filter (\<lambda>r. P (r mod voc_size ps)) ranks)"
    and "map nh_word_probs (filter (\<lambda>h. P (last (nh_sample h)))
            (map (expand num_src ra s ps ns ma) ranks))
         = map (\<lambda>r. word_probs s ! (r div voc_size ps)
                      @ [np_div (np_sum (map (\<lambda>p. p ! (r div voc_size ps) ! (r mod voc_size ps)) ps))
                                (length ps)])
             (filter (\<lambda>r. P (r mod voc_size ps)) ranks)"
  using assms(1)
  by (induction ranks) (simp_all add: expand_fields [OF _ assms(2)])

lemma np_sum_pair: "np_sum [a, a] = np_add a a"
  by (cases a) (simp_all add: np_sum_def)

lemma np_mean_pair: "np_div (np_sum [a, a]) 2 = a"
  by (cases a) (simp_all add: np_sum_def)

text \<open>
  C1, as the code has it. In a step, the array from which the candidates are selected holds,
  for hypothesis \<open>ti\<close> and word \<open>wi\<close>, the score of the hypothesis minus the SUM over the models
  of the logarithms of their probabilities of the word (for positive probabilities: minus the
  logarithm of their product); the selected candidates are the new hypotheses, finished when
  the word is 0 and live otherwise, and their scores are the entries of that array. The
  arithmetic mean of the models' probabilities is what is recorded as the probability of the
  new word, and takes no part in the score. For two models that return the same matrix, the
  mean is that matrix exactly, and the score subtracts the logarithm twice.
\<close>

theorem beam_step_scores_sum_of_logs:
  assumes "partition_contract argpartition"
    and "beam_step argpartition models k num_src fl s = Inr s'"
  shows
    "let ps = next_p fl (model_outs fl models s);
         V = voc_size ps;
         cost = (\<lambda>ti wi. np_sub (hyp_scores s ! ti) (np_sum (map (\<lambda>p. np_log (p ! ti ! wi)) ps)));
         mean = (\<lambda>ti wi. np_div (np_sum (map (\<lambda>p. p ! ti ! wi) ps)) (length models))
     in (\<exists>ranks.
           ranks_flat argpartition k (dead_k s)
             (concat (map (\<lambda>ti. map (\<lambda>wi. cost ti wi) [0..<V]) [0..<live_k s])) = Inr ranks
         \<and> (\<forall>r \<in> set ranks. r < live_k s * V)
         \<and> sample s' = sample s
             @ map (\<lambda>r. hyp_samples s ! (r div V) @ [r mod V]) (filter (\<lambda>r. r mod V = 0) ranks)
         \<and> sample_score s' = sample_score s
             @ map (\<lambda>r. cost (r div V) (r mod V)) (filter (\<lambda>r. r mod V = 0) ranks)
         \<and> sample_word_probs s' = sample_word_probs s
             @ map (\<lambda>r. word_probs s ! (r div V) @ [mean (r div V) (r mod V)])
                   (filter (\<lambda>r. r mod V = 0) ranks)
         \<and> hyp_samples s' =
               map (\<lambda>r. hyp_samples s ! (r div V) @ [r mod V]) (filter (\<lambda>r. r mod V \<noteq> 0) ranks)
         \<and> hyp_scores s' =
               map (\<lambda>r. cost (r div V) (r mod V)) (filter (\<lambda>r. r mod V \<noteq> 0) ranks)
         \<and> word_probs s' =
               map (\<lambda>r. word_probs s ! (r div V) @ [mean (r div V) (r mod V)])
                   (filter (\<lambda>r. r mod V \<noteq> 0) ranks))
      \<and> (\<forall>p. ps = [p, p] \<longrightarrow>
            (\<forall>ti wi. mean ti wi = p ! ti ! wi
               \<and> cost ti wi
                   = np_sub (hyp_scores s ! ti) (np_add (np_log (p ! ti ! wi)) (np_log (p ! ti ! wi)))
               \<and> (\<forall>x. p ! ti ! wi = Fin x \<and> 0 < x \<longrightarrow>
                     cost ti wi = np_sub (hyp_scores s ! ti) (Fin (2 * ln x)))))"
proof -
  let ?outs = "model_outs fl models s"
  let ?ps = "next_p fl ?outs"
  let ?V = "voc_size ?ps"
  let ?cost = "\<lambda>ti wi. np_sub (hyp_scores s ! ti) (np_sum (map (\<lambda>p. np_log (p ! ti ! wi)) ?ps))"
  let ?mean = "\<lambda>ti wi. np_div (np_sum (map (\<lambda>p. p ! ti ! wi) ?ps)) (length models)"
  obtain new where ok: "shapes_ok num_src (return_alignment fl) s ?outs"
    and n: "new_hyps argpartition k num_src fl s ?outs = Inr new"
    and s': "s' = split_new num_src fl s (map (\<lambda>(p, st, al). st) ?outs) new"
    using beam_step_Inr [OF assms(2)] by blast
  obtain ranks where r: "ranks_flat argpartition k (dead_k s) (cand_flat fl s ?outs) = Inr ranks"
    and new: "new = map (expand num_src (return_alignment fl) s ?ps (map (\<lambda>(p, st, al). st) ?outs)
                          (mean_alignments num_src (return_alignment fl) (live_k s) ?outs)) ranks"
    using new_hyps_Inr [OF n] by blast
  have len: "length (hyp_scores s) = live_k s" using ok by (simp add: shapes_ok_def)
  have lps: "length ?ps = length models" by (simp add: next_p_def model_outs_def)
  have arr: "cand_flat fl s ?outs
               = concat (map (\<lambda>ti. map (\<lambda>wi. ?cost ti wi) [0..<?V]) [0..<live_k s])"
    by (simp add: cand_flat_def cand_scores_def len)
  have bound: "\<forall>r \<in> set ranks. r < live_k s * ?V"
    using ranks_flat_props(4) [OF assms(1) r] by (simp add: length_cand_flat len)
  note cf = children_fields [OF bound len, unfolded lps]
  have r': "ranks_flat argpartition k (dead_k s)
             (concat (map (\<lambda>ti. map (\<lambda>wi. ?cost ti wi) [0..<?V]) [0..<live_k s])) = Inr ranks"
    using r arr by simp
  have d1: "sample s' = sample s
             @ map (\<lambda>r. hyp_samples s ! (r div ?V) @ [r mod ?V]) (filter (\<lambda>r. r mod ?V = 0) ranks)"
    unfolding s' new split_new_fields using cf(1) [of "\<lambda>w. w = 0"] by simp
  have d2: "sample_score s' = sample_score s
             @ map (\<lambda>r. ?cost (r div ?V) (r mod ?V)) (filter (\<lambda>r. r mod ?V = 0) ranks)"
    unfolding s' new split_new_fields using cf(2) [of "\<lambda>w. w = 0"] by simp
  have d3: "sample_word_probs s' = sample_word_probs s
             @ map (\<lambda>r. word_probs s ! (r div ?V) @ [?mean (r div ?V) (r mod ?V)])
                   (filter (\<lambda>r. r mod ?V = 0) ranks)"
    unfolding s' new split_new_fields using cf(3) [of "\<lambda>w. w = 0"] by simp
  have l1: "hyp_samples s' =
               map (\<lambda>r. hyp_samples s ! (r div ?V) @ [r mod ?V]) (filter (\<lambda>r. r mod ?V \<noteq> 0) ranks)"
    unfolding s' new split_new_fields using cf(1) [of "\<lambda>w. w \<noteq> 0"] by simp
  have l2: "hyp_scores s' =
               map (\<lambda>r. ?cost (r div ?V) (r mod ?V)) (filter (\<lambda>r. r mod ?V \<noteq> 0) ranks)"
    unfolding s' new split_new_fields using cf(2) [of "\<lambda>w. w \<noteq> 0"] by simp
  have l3: "word_probs s' =
               map (\<lambda>r. word_probs s ! (r div ?V) @ [?mean (r div ?V) (r mod ?V)])
                   (filter (\<lambda>r. r mod ?V \<noteq> 0) ranks)"
    unfolding s' new split_new_fields using cf(3) [of "\<lambda>w. w \<noteq> 0"] by simp
  have first: "\<exists>ranks.
           ranks_flat argpartition k (dead_k s)
             (concat (map (\<lambda>ti. map (\<lambda>wi. ?cost ti wi) [0..<?V]) [0..<live_k s])) = Inr ranks
         \<and> (\<forall>r \<in> set ranks. r < live_k s * ?V)
         \<and> sample s' = sample s
             @ map (\<lambda>r. hyp_samples s ! (r div ?V) @ [r mod ?V]) (filter (\<lambda>r. r mod ?V = 0) ranks)
         \<and> sample_score s' = sample_score s
             @ map (\<lambda>r. ?cost (r div ?V) (r mod ?V)) (filter (\<lambda>r. r mod ?V = 0) ranks)
         \<and> sample_word_probs s' = sample_word_probs s
             @ map (\<lambda>r. word_probs s ! (r div ?V) @ [?mean (r div ?V) (r mod ?V)])
                   (filter (\<lambda>r. r mod ?V = 0) ranks)
         \<and> hyp_samples s' =
               map (\<lambda>r. hyp_samples s ! (r div ?V) @ [r mod ?V]) (filter (\<lambda>r. r mod ?V \<noteq> 0) ranks)
         \<and> hyp_scores s' =
               map (\<lambda>r. ?cost (r div ?V) (r mod ?V)) (filter (\<lambda>r. r mod ?V \<noteq> 0) ranks)
         \<and> word_probs s' =
               map (\<lambda>r. word_probs s ! (r div ?V) @ [?mean (r div ?V) (r mod ?V)])
                   (filter (\<lambda>r. r mod ?V \<noteq> 0) ranks)"
    apply (rule exI [of _ ranks])
    using r' bound d1 d2 d3 l1 l2 l3
    apply (intro conjI)
    apply assumption+
    done
  have second: "\<forall>p. ?ps = [p, p] \<longrightarrow>
            (\<forall>ti wi. ?mean ti wi = p ! ti ! wi
               \<and> ?cost ti wi
                   = np_sub (hyp_scores s ! ti) (np_add (np_log (p ! ti ! wi)) (np_log (p ! ti ! wi)))
               \<and> (\<forall>x. p ! ti ! wi = Fin x \<and> 0 < x \<longrightarrow>
                     ?cost ti wi = np_sub (hyp_scores s ! ti) (Fin (2 * ln x))))"
  proof (intro allI impI)
    fix p ti wi assume p: "?ps = [p, p]"
    then have two: "length models = 2" using lps by simp
    have m: "?mean ti wi = p ! ti ! wi" unfolding p two by (simp add: np_mean_pair)
    have c: "?cost ti wi
               = np_sub (hyp_scores s ! ti) (np_add (np_log (p ! ti ! wi)) (np_log (p ! ti ! wi)))"
      unfolding p by (simp add: np_sum_pair)
    have x: "\<forall>x. p ! ti ! wi = Fin x \<and> 0 < x \<longrightarrow>
               ?cost ti wi = np_sub (hyp_scores s ! ti) (Fin (2 * ln x))"
      unfolding c by simp
    show "?mean ti wi = p ! ti ! wi
               \<and> ?cost ti wi
                   = np_sub (hyp_scores s ! ti) (np_add (np_log (p ! ti ! wi)) (np_log (p ! ti ! wi)))
               \<and> (\<forall>x. p ! ti ! wi = Fin x \<and> 0 < x \<longrightarrow>
                     ?cost ti wi = np_sub (hyp_scores s ! ti) (Fin (2 * ln x)))"
      using m c x by (intro conjI)
  qed
  show ?thesis unfolding Let_def using first second by (intro conjI)
qed

theorem beam_step_scores_sum_of_logs_witness:
  "partition_contract argsort_stable
   \<and> beam_step argsort_stable [const_model [1/2, 1/2], const_model [1/2, 1/2]] 2 1 plain
         (init_example \<lparr>next_state := [[()], [()]], ctx := [[()], [()]]\<rparr>)
       = Inr (init_example \<lparr> sample := [[0]], sample_score := [Fin (2 * ln 2)],
                sample_word_probs := [[Fin (1/2)]],
                dead_k := 1, live_k := 1, hyp_samples := [[1]], hyp_scores := [Fin (2 * ln 2)],
                hyp_states := [[(), ()]], word_probs := [[Fin (1/2)]],
                next_state := [[()], [()]], ctx := [[()], [()]] \<rparr>)
   \<and> next_p plain (model_outs plain [const_model [1/2, 1/2], const_model [1/2, 1/2]]
         (init_example \<lparr>next_state := [[()], [()]], ctx := [[()], [()]]\<rparr>))
       = [[[Fin (1/2), Fin (1/2)]], [[Fin (1/2), Fin (1/2)]]]"
  using beam_step_scores_sum_of_logs [OF argsort_stable_contract,
      of "[const_model [1/2, 1/2], const_model [1/2, 1/2]]" 2 1 plain
         "init_example \<lparr>next_state := [[()], [()]], ctx := [[()], [()]]\<rparr>"]
  by (simp add: argsort_stable_contract run_defs init_example_def ln_div)

text \<open>
  C1, as the specification states it, fails. Two models give the five words the probabilities
  1/2, 1/4, 1/16, 1/16, 1/8 and 1/16, 1/4, 1/2, 1/8, 1/16. The arithmetic mean is highest for
  words 0 and 2 (9/32) and is 1/4 for word 1. With beam width 1 the step selects word 1,
  whose sum of logarithms is the highest, and gives it the cost \<open>4 * ln 2\<close>, which is not minus
  the logarithm of the combined probability 1/4 that the step records for it.
\<close>

theorem beam_step_mean_counterexample:
  "beam_step argsort_stable
       [const_model [1/2, 1/4, 1/16, 1/16, 1/8], const_model [1/16, 1/4, 1/2, 1/8, 1/16]] 1 1 plain
       (init_example \<lparr>next_state := [[()], [()]], ctx := [[()], [()]]\<rparr>)
     = Inr (init_example \<lparr> live_k := 1, hyp_samples := [[1]], hyp_scores := [Fin (4 * ln 2)],
              hyp_states := [[(), ()]], word_probs := [[Fin (1/4)]],
              next_state := [[()], [()]], ctx := [[()], [()]] \<rparr>)
   \<and> probs 1 (next_p plain (model_outs plain
         [const_model [1/2, 1/4, 1/16, 1/16, 1/8], const_model [1/16, 1/4, 1/2, 1/8, 1/16]]
         (init_example \<lparr>next_state := [[()], [()]], ctx := [[()], [()]]\<rparr>)))
       = [[Fin (9/32), Fin (1/4), Fin (9/32), Fin (3/32), Fin (3/32)]]
   \<and> Fin (4 * ln 2) \<noteq> np_sub (Fin 0) (np_log (Fin (1/4)))"
  by (simp add: run_defs init_example_def ln_div ln_pow2)


subsection \<open>Selection of the candidates\<close>

lemma children_of_ranks:
  "map nh_sample (filter (\<lambda>h. P (last (nh_sample h)))
      (map (expand num_src fl s ps ns ma) ranks))
   = map (\<lambda>r. hyp_samples s ! (r div voc_size ps) @ [r mod voc_size ps])
       (filter (\<lambda>r. P (r mod voc_size ps)) ranks)"
  by (induction ranks) (simp_all add: expand_def Let_def)

text \<open>
  C2, as the code has it: with a selection primitive that keeps numpy's promise, a step
  selects \<open>k - dead_k\<close> distinct candidates of the flattened \<open>live_k \<times> voc_size\<close> candidate set,
  and no candidate left out has a lower cost than a selected one (in numpy's order of the
  scores, where a cost \<open>+inf\<close>, as a probability 0 gives, comes after every finite cost, and nan
  last): the selection is global, not the best word of each hypothesis. The new hypotheses are exactly the selected
  candidates: candidate \<open>r\<close> extends hypothesis \<open>r div voc_size\<close> with word \<open>r mod voc_size\<close>, is
  finished when that word is 0 and live otherwise. Which of several candidates of equal cost
  is selected is left to the primitive.
\<close>

theorem beam_step_selects_lowest:
  assumes "partition_contract argpartition"
    and "beam_step argpartition models k num_src fl s = Inr s'"
  shows "\<exists>ranks. ranks_flat argpartition k (dead_k s) (cand_flat fl s (model_outs fl models s)) = Inr ranks
           \<and> length (cand_flat fl s (model_outs fl models s))
               = live_k s * voc_size (next_p fl (model_outs fl models s))
           \<and> length ranks = k - dead_k s \<and> distinct ranks
           \<and> (\<forall>r \<in> set ranks. r < length (cand_flat fl s (model_outs fl models s)))
           \<and> (\<forall>r \<in> set ranks. \<forall>q < length (cand_flat fl s (model_outs fl models s)).
                 q \<notin> set ranks \<longrightarrow>
                 np_le (cand_flat fl s (model_outs fl models s) ! r)
                       (cand_flat fl s (model_outs fl models s) ! q))
           \<and> sample s' = sample s
               @ map (\<lambda>r. hyp_samples s ! (r div voc_size (next_p fl (model_outs fl models s)))
                          @ [r mod voc_size (next_p fl (model_outs fl models s))])
                     (filter (\<lambda>r. r mod voc_size (next_p fl (model_outs fl models s)) = 0) ranks)
           \<and> hyp_samples s' =
                 map (\<lambda>r. hyp_samples s ! (r div voc_size (next_p fl (model_outs fl models s)))
                          @ [r mod voc_size (next_p fl (model_outs fl models s))])
                     (filter (\<lambda>r. r mod voc_size (next_p fl (model_outs fl models s)) \<noteq> 0) ranks)"
proof -
  let ?outs = "model_outs fl models s"
  obtain new where ok: "shapes_ok num_src (return_alignment fl) s ?outs"
    and n: "new_hyps argpartition k num_src fl s ?outs = Inr new"
    and s': "s' = split_new num_src fl s (map (\<lambda>(p, st, al). st) ?outs) new"
    using beam_step_Inr [OF assms(2)] by blast
  obtain ranks where r: "ranks_flat argpartition k (dead_k s) (cand_flat fl s ?outs) = Inr ranks"
    and new: "new = map (expand num_src (return_alignment fl) s (next_p fl ?outs) (map (\<lambda>(p, st, al). st) ?outs)
                          (mean_alignments num_src (return_alignment fl) (live_k s) ?outs)) ranks"
    using new_hyps_Inr [OF n] by blast
  have len: "length (cand_flat fl s ?outs) = live_k s * voc_size (next_p fl ?outs)"
    using ok by (simp add: length_cand_flat shapes_ok_def)
  have dead: "sample s' = sample s
               @ map (\<lambda>r. hyp_samples s ! (r div voc_size (next_p fl ?outs))
                          @ [r mod voc_size (next_p fl ?outs)])
                     (filter (\<lambda>r. r mod voc_size (next_p fl ?outs) = 0) ranks)"
    unfolding s' new split_new_fields
    using children_of_ranks [of "\<lambda>w. w = 0"] by simp
  have live: "hyp_samples s' =
                 map (\<lambda>r. hyp_samples s ! (r div voc_size (next_p fl ?outs))
                          @ [r mod voc_size (next_p fl ?outs)])
                     (filter (\<lambda>r. r mod voc_size (next_p fl ?outs) \<noteq> 0) ranks)"
    unfolding s' new split_new_fields
    using children_of_ranks [of "\<lambda>w. w \<noteq> 0"] by simp
  show ?thesis
    using r len ranks_flat_props(2,3,4,5) [OF assms(1) r] dead live by blast
qed

theorem beam_step_selects_lowest_witness:
  "partition_contract argsort_stable
   \<and> beam_step argsort_stable [const_model [1/4, 1/4, 1/2]] 2 1 plain init_example
       = Inr (init_example \<lparr> sample := [[0]], sample_score := [Fin (ln 4)],
                sample_word_probs := [[Fin (1/4)]],
                dead_k := 1, live_k := 1, hyp_samples := [[2]], hyp_scores := [Fin (ln 2)],
                hyp_states := [[()]], word_probs := [[Fin (1/2)]] \<rparr>)
   \<and> ranks_flat argsort_stable 2 (dead_k init_example)
        (cand_flat plain init_example (model_outs plain [const_model [1/4, 1/4, 1/2]] init_example))
       = Inr [2, 0]"
  using beam_step_selects_lowest [OF argsort_stable_contract,
      of "[const_model [1/4, 1/4, 1/2]]" 2 1 plain init_example]
  by (simp add: argsort_stable_contract run_defs init_example_def ln_div)

text \<open>
  C2, as the specification states it, fails: the code does not fix the choice between
  candidates of equal cost. With one model that gives the words 0, 1 and 2 the probabilities
  1/4, 1/4 and 1/2 and beam width 2, the candidates of words 0 and 1 have the same cost
  \<open>ln 4\<close>. The selection by swaps keeps numpy's promise on these scores and selects the words 2
  and 1: word 1 is taken and word 0, earlier in the flattened order, is not.
\<close>

theorem beam_step_tie_break_counterexample:
  "argpartition_ok [Fin (ln 4), Fin (ln 4), Fin (ln 2)] 1
     (select_swap [Fin (ln 4), Fin (ln 4), Fin (ln 2)] 1)
   \<and> cand_flat plain init_example (model_outs plain [const_model [1/4, 1/4, 1/2]] init_example)
       = [Fin (ln 4), Fin (ln 4), Fin (ln 2)]
   \<and> beam_step select_swap [const_model [1/4, 1/4, 1/2]] 2 1 plain init_example
       = Inr (init_example \<lparr> live_k := 2, hyp_samples := [[2], [1]],
                hyp_scores := [Fin (ln 2), Fin (ln 4)],
                hyp_states := [[()], [()]], word_probs := [[Fin (1/2)], [Fin (1/4)]] \<rparr>)"
  by (simp add: run_defs init_example_def ln_div select_swap_def min_pos_def swap_at_def
      argpartition_ok_def np_le_def np_lt_def upt_rec less_Suc_eq)


subsection \<open>Costs along a lineage\<close>












subsection \<open>A whole search\<close>

lemma gen_sample_run:
  assumes "partition_contract argpartition"
    and "gen_sample argpartition models xs k maxlen fl = Inr out"
  shows "\<exists>s0 tr sf. gen_init models xs fl = Inr s0
           \<and> beam_trace argpartition models k (length xs) fl maxlen s0 = Inr tr
           \<and> length tr \<le> maxlen
           \<and> (maxlen = 0 \<longrightarrow> tr = [] \<and> sf = s0)
           \<and> (0 < maxlen \<longrightarrow> tr \<noteq> [] \<and> (sf = last tr \<or> sf = advance models (last tr)))
           \<and> (\<forall>s \<in> set (butlast tr). 0 < live_k s \<and> dead_k s < k)
           \<and> (length tr < maxlen \<longrightarrow> live_k (last tr) = 0 \<or> k \<le> dead_k (last tr))
           \<and> (\<forall>s \<in> set tr. consistent s \<and> dead_k s + live_k s = k
                 \<and> (\<forall>h \<in> set (sample s). h \<noteq> [] \<and> last h = 0))
           \<and> sorted_wrt (extends (length xs)) tr
           \<and> consistent sf
           \<and> r_sample out = sample sf @ (if argmax fl then [] else hyp_samples sf)
           \<and> r_score out = sample_score sf @ (if argmax fl then [] else hyp_scores sf)
           \<and> r_word_probs out = sample_word_probs sf @ (if argmax fl then [] else word_probs sf)
           \<and> r_hyp_graph out = hyp_graph sf"
proof -
  obtain s0 sf where init: "gen_init models xs fl = Inr s0"
    and loop: "beam_loop argpartition models k (length xs) fl maxlen s0 = Inr sf"
    and fo: "flush (length xs) fl sf = Inr out"
    using assms(2) unfolding gen_sample_def by (auto split: sum.splits)
  obtain tr where tr: "beam_trace argpartition models k (length xs) fl maxlen s0 = Inr tr"
      "length tr \<le> maxlen" "maxlen = 0 \<longrightarrow> tr = [] \<and> sf = s0"
      "0 < maxlen \<longrightarrow> tr \<noteq> [] \<and> (sf = last tr \<or> sf = advance models (last tr))"
      "\<forall>s' \<in> set (butlast tr). 0 < live_k s' \<and> dead_k s' < k"
      "length tr < maxlen \<longrightarrow> live_k (last tr) = 0 \<or> k \<le> dead_k (last tr)"
    using beam_loop_trace [OF loop] by blast
  have c0: "consistent s0" and e0: "\<forall>h \<in> set (sample s0). h \<noteq> [] \<and> last h = 0"
    using gen_init_consistent(1,2) [OF init] by simp_all
  have inv: "(\<forall>s' \<in> set tr. consistent s' \<and> dead_k s' + live_k s' = k
                \<and> (\<forall>h \<in> set (sample s'). h \<noteq> [] \<and> last h = 0) \<and> extends (length xs) s0 s')
             \<and> sorted_wrt (extends (length xs)) tr"
    using beam_trace_invariant [OF assms(1) c0 e0 tr(1)] .
  have csf: "consistent sf"
  proof (cases "maxlen = 0")
    case True
    then show ?thesis using tr(3) c0 by simp
  next
    case False
    then have "tr \<noteq> []" and "sf = last tr \<or> sf = advance models (last tr)" using tr(4) by simp_all
    moreover have "consistent (last tr)" using inv \<open>tr \<noteq> []\<close> by simp
    ultimately show ?thesis by auto
  qed
  have inv1: "\<forall>s \<in> set tr. consistent s \<and> dead_k s + live_k s = k
                 \<and> (\<forall>h \<in> set (sample s). h \<noteq> [] \<and> last h = 0)"
    using inv by simp
  have inv2: "sorted_wrt (extends (length xs)) tr" using inv by simp
  note o = flush_Inr [OF csf fo]
  show ?thesis
    apply (rule exI [of _ s0])
    apply (rule exI [of _ tr])
    apply (rule exI [of _ sf])
    using init tr inv1 inv2 csf o apply (intro conjI)
    apply assumption+
    done
qed






text \<open>
  C5: in a search that returns, whatever the options are, after every pass the number of live
  hypotheses plus \<open>dead_k\<close> is at most \<open>k\<close>, every finished hypothesis ends in word 0, and the
  finished lists only grow at the end: the finished samples, scores and word probabilities
  after a pass are an initial part of those after every later pass and of those returned, and
  so are the finished alignments of each input after a pass of those after every later pass.
\<close>

theorem beam_search_invariant:
  assumes "partition_contract argpartition"
    and "gen_sample argpartition models xs k maxlen fl = Inr out"
  shows "\<exists>s0 tr. gen_init models xs fl = Inr s0
           \<and> beam_trace argpartition models k (length xs) fl maxlen s0 = Inr tr
           \<and> (\<forall>s \<in> set tr. length (hyp_samples s) + dead_k s \<le> k
                 \<and> length (hyp_samples s) = live_k s \<and> length (sample s) = dead_k s
                 \<and> (\<forall>h \<in> set (sample s). h \<noteq> [] \<and> last h = 0)
                 \<and> prefix (sample s) (r_sample out) \<and> prefix (sample_score s) (r_score out)
                 \<and> prefix (sample_word_probs s) (r_word_probs out))
           \<and> (\<forall>j < length tr. \<forall>i \<le> j. extends (length xs) (tr ! i) (tr ! j))"
proof -
  obtain s0 tr sf where run: "gen_init models xs fl = Inr s0"
      "beam_trace argpartition models k (length xs) fl maxlen s0 = Inr tr"
      "maxlen = 0 \<longrightarrow> tr = [] \<and> sf = s0"
      "0 < maxlen \<longrightarrow> tr \<noteq> [] \<and> (sf = last tr \<or> sf = advance models (last tr))"
      "\<forall>s \<in> set tr. consistent s \<and> dead_k s + live_k s = k
                 \<and> (\<forall>h \<in> set (sample s). h \<noteq> [] \<and> last h = 0)"
      "sorted_wrt (extends (length xs)) tr"
    and out: "r_sample out = sample sf @ (if argmax fl then [] else hyp_samples sf)"
      "r_score out = sample_score sf @ (if argmax fl then [] else hyp_scores sf)"
      "r_word_probs out = sample_word_probs sf @ (if argmax fl then [] else word_probs sf)"
    using gen_sample_run [OF assms] by blast
  have chain: "extends (length xs) (tr ! i) (tr ! j)" if "j < length tr" "i \<le> j" for i j
  proof (cases "i = j")
    case True
    then show ?thesis by (simp add: extends_refl)
  next
    case False
    then have "i < j" using that(2) by simp
    then show ?thesis using run(6) that(1) by (simp add: sorted_wrt_iff_nth_less)
  qed
  have fin: "prefix (sample s) (r_sample out) \<and> prefix (sample_score s) (r_score out)
                 \<and> prefix (sample_word_probs s) (r_word_probs out)" if s: "s \<in> set tr" for s
  proof -
    have ne: "tr \<noteq> []" using s by auto
    then have sf: "sf = last tr \<or> sf = advance models (last tr)" using run(3,4) by (cases "maxlen = 0") auto
    obtain i where i: "i < length tr" "s = tr ! i" using s by (auto simp: in_set_conv_nth)
    have "extends (length xs) (tr ! i) (tr ! (length tr - 1))" using chain [of "length tr - 1" i] i(1) by simp
    then have "extends (length xs) s (last tr)" using i(2) ne by (simp add: last_conv_nth)
    then have "prefix (sample s) (sample sf)" "prefix (sample_score s) (sample_score sf)"
      "prefix (sample_word_probs s) (sample_word_probs sf)"
      using sf by (auto simp: extends_def)
    then show ?thesis unfolding out by (simp add: prefix_prefix)
  qed
  have each: "length (hyp_samples s) + dead_k s \<le> k
                 \<and> length (hyp_samples s) = live_k s \<and> length (sample s) = dead_k s
                 \<and> (\<forall>h \<in> set (sample s). h \<noteq> [] \<and> last h = 0)" if "s \<in> set tr" for s
    using run(5) that by (auto simp: consistent_def)
  have all: "\<forall>s \<in> set tr. length (hyp_samples s) + dead_k s \<le> k
                 \<and> length (hyp_samples s) = live_k s \<and> length (sample s) = dead_k s
                 \<and> (\<forall>h \<in> set (sample s). h \<noteq> [] \<and> last h = 0)
                 \<and> prefix (sample s) (r_sample out) \<and> prefix (sample_score s) (r_score out)
                 \<and> prefix (sample_word_probs s) (r_word_probs out)"
  proof
    fix s assume s: "s \<in> set tr"
    show "length (hyp_samples s) + dead_k s \<le> k
                 \<and> length (hyp_samples s) = live_k s \<and> length (sample s) = dead_k s
                 \<and> (\<forall>h \<in> set (sample s). h \<noteq> [] \<and> last h = 0)
                 \<and> prefix (sample s) (r_sample out) \<and> prefix (sample_score s) (r_score out)
                 \<and> prefix (sample_word_probs s) (r_word_probs out)"
      using each [OF s] fin [OF s] by (intro conjI) (elim conjE, assumption)+
  qed
  have ch: "\<forall>j < length tr. \<forall>i \<le> j. extends (length xs) (tr ! i) (tr ! j)" using chain by simp
  show ?thesis
    apply (rule exI [of _ s0])
    apply (rule exI [of _ tr])
    using run(1,2) all ch apply (intro conjI)
    apply assumption+
    done
qed

theorem beam_search_invariant_witness:
  "partition_contract argsort_stable
   \<and> gen_sample argsort_stable [const_model [1/2, 1/2]] [()] 2 5 plain
       = Inr \<lparr> r_sample = [[0], [1, 0]], r_score = [Fin (ln 2), Fin (2 * ln 2)],
               r_word_probs = [[Fin (1/2)], [Fin (1/2), Fin (1/2)]],
               r_alignments = [[None, None]], r_hyp_graph = None \<rparr>
   \<and> beam_trace argsort_stable [const_model [1/2, 1/2]] 2 1 plain 5 init_example
       = Inr [init_example \<lparr> sample := [[0]], sample_score := [Fin (ln 2)],
                sample_word_probs := [[Fin (1/2)]], dead_k := 1, live_k := 1,
                hyp_samples := [[1]], hyp_scores := [Fin (ln 2)], hyp_states := [[()]],
                word_probs := [[Fin (1/2)]] \<rparr>,
              init_example \<lparr> sample := [[0], [1, 0]],
                sample_score := [Fin (ln 2), Fin (2 * ln 2)],
                sample_word_probs := [[Fin (1/2)], [Fin (1/2), Fin (1/2)]], dead_k := 2,
                live_k := 0, hyp_samples := [], hyp_scores := [], hyp_states := [],
                word_probs := [], next_w := [1] \<rparr>]"
  using beam_search_invariant [OF argsort_stable_contract,
      of "[const_model [1/2, 1/2]]" "[()]" 2 5 plain]
  by (simp add: argsort_stable_contract run_defs init_example_def ln_div eval_nat_numeral)


subsection \<open>A search with well-behaved models returns\<close>

lemma model_outs_ok:
  assumes "\<forall>m \<in> set models. model_ok V m" and "out \<in> set (model_outs fl models s)"
    and "length (next_state s) = length models"
    and "\<forall>st \<in> set (next_state s). length st = length (next_w s)"
  shows "case out of (p, st', al) \<Rightarrow>
          length p = length (next_w s) \<and> (\<forall>row \<in> set p. length row = V)
          \<and> length st' = length (next_w s)"
proof -
  obtain i where i: "i < length models"
    and out: "out = f_next (models ! i) (next_w s)
                      (if init_decoder fl then take 1 (ctx s ! i) else ctx s ! i) (next_state s ! i)"
    using assms(2) by (auto simp: model_outs_def)
  have ok: "model_ok V (models ! i)" using assms(1) i by simp
  have len: "length (next_state s ! i) = length (next_w s)" using assms(3,4) i by simp
  show ?thesis unfolding out by (rule ok [unfolded model_ok_def, rule_format, OF len])
qed

lemma voc_size_outs:
  assumes "\<forall>m \<in> set models. model_ok V m" and "models \<noteq> []" and "0 < length (next_w s)"
    and "length (next_state s) = length models"
    and "\<forall>st \<in> set (next_state s). length st = length (next_w s)"
  shows "voc_size (map fst (model_outs fl models s)) = V"
proof -
  obtain o1 rest where outs: "model_outs fl models s = o1 # rest"
    using assms(2) by (cases "model_outs fl models s") (auto simp: model_outs_def)
  obtain p st' al where o1: "o1 = (p, st', al)" by (cases o1)
  have "o1 \<in> set (model_outs fl models s)" using outs by simp
  then have ok: "length p = length (next_w s)" "\<forall>row \<in> set p. length row = V"
    using model_outs_ok [OF assms(1) _ assms(4,5)] o1 by auto
  obtain row rows where p: "p = row # rows" using ok(1) assms(3) by (cases p) auto
  then have "length row = V" using ok(2) by simp
  then show ?thesis using outs o1 p by (simp add: voc_size_def)
qed

lemma beam_step_returns:
  assumes "partition_contract argpartition"
    and "\<forall>m \<in> set models. model_ok V m" and "models \<noteq> []"
    and "ready V k models s"
    and "\<not> return_alignment fl" and "suppress_unk fl \<longrightarrow> 2 \<le> V"
  shows "\<exists>s'. beam_step argpartition models k num_src fl s = Inr s'"
proof -
  let ?outs = "model_outs fl models s"
  have r: "consistent s" "length (next_w s) = live_k s" "length (next_state s) = length models"
      "length (ctx s) = length models" "0 < live_k s" "dead_k s < k"
      "k - dead_k s \<le> live_k s * V" "\<forall>st \<in> set (next_state s). length st = length (next_w s)"
    using assms(4) by (simp_all add: ready_def)
  have nw: "0 < length (next_w s)" using r(2,5) by simp
  have ne: "?outs \<noteq> []" using assms(3) by (simp add: model_outs_def)
  have V: "voc_size (map fst ?outs) = V"
    by (rule voc_size_outs [OF assms(2,3) nw r(3,8)])
  have each: "length p = live_k s \<and> (\<forall>row \<in> set p. length row = V)
                \<and> length st' = live_k s" if "(p, st', al) \<in> set ?outs" for p st' al
    using model_outs_ok [OF assms(2) that r(3,8)] r(2) by simp
  have sh: "shapes_ok num_src (return_alignment fl) s ?outs"
    unfolding shapes_ok_def using r(1) each V assms(5) by (auto simp: consistent_def)
  have len: "length (cand_flat fl s ?outs) = live_k s * V"
    using r(1) V by (simp add: length_cand_flat voc_size_next_p consistent_def)
  have le: "int (k - dead_k s) \<le> int (length (cand_flat fl s ?outs))"
    using r(7) by (simp only: len of_nat_le_iff)
  have df: "int (k - dead_k s) = int k - int (dead_k s)" using r(6) by simp
  have "\<not> (int k - int (dead_k s) - 1 < - int (length (cand_flat fl s ?outs))
          \<or> int (length (cand_flat fl s ?outs)) \<le> int k - int (dead_k s) - 1 \<or> k < dead_k s)"
    using le df r(6) by linarith
  then have "\<exists>ranks. ranks_flat argpartition k (dead_k s) (cand_flat fl s ?outs) = Inr ranks"
    unfolding ranks_flat_def Let_def by (simp only: if_False) blast
  then have "\<exists>new. new_hyps argpartition k num_src fl s ?outs = Inr new"
    by (auto simp: new_hyps_def)
  then show ?thesis
    unfolding beam_step_def Let_def using r(3,4) ne sh V assms(5,6) by auto
qed

lemma advance_ready:
  assumes "partition_contract argpartition" and "0 < V"
    and "beam_step argpartition models k num_src fl s = Inr s'"
    and "consistent s" and "length (ctx s) = length models"
    and "\<not> live_k s' < 1" and "\<not> k \<le> dead_k s'"
  shows "ready V k models (advance models s')"
proof -
  have c: "consistent s'" using beam_step_consistent [OF assms(4,3)] .
  have t: "dead_k s' + live_k s' = k" using beam_step_total [OF assms(1,3)] .
  obtain new where
    s': "s' = split_new num_src fl s (map (\<lambda>(p, st, al). st) (model_outs fl models s)) new"
    using beam_step_Inr [OF assms(3)] by blast
  have cx: "ctx s' = ctx s" unfolding s' by (simp add: split_new_def Let_def)
  have hs: "length (hyp_states s') = live_k s'" unfolding s' by (simp add: split_new_def Let_def)
  have "k - dead_k s' = live_k s'" using t by simp
  then have enough: "k - dead_k s' \<le> live_k s' * V" using assms(2) by simp
  show ?thesis
    unfolding ready_def using c t cx hs enough assms(5,6,7)
    by (simp add: advance_def consistent_def)
qed

lemma beam_loop_returns:
  assumes "partition_contract argpartition"
    and "\<forall>m \<in> set models. model_ok V m" and "models \<noteq> []" and "0 < V"
    and "\<not> return_alignment fl" and "suppress_unk fl \<longrightarrow> 2 \<le> V"
    and "ready V k models s"
  shows "\<exists>sf. beam_loop argpartition models k num_src fl n s = Inr sf"
  using assms(7)
proof (induction n arbitrary: s)
  case 0
  then show ?case by simp
next
  case (Suc n)
  obtain s' where step: "beam_step argpartition models k num_src fl s = Inr s'"
    using beam_step_returns [OF assms(1,2,3) Suc.prems assms(5,6)] by blast
  show ?case
  proof (cases "live_k s' < 1 \<or> k \<le> dead_k s'")
    case True
    then show ?thesis using step by auto
  next
    case False
    have "ready V k models (advance models s')"
      by (rule advance_ready [OF assms(1,4) step]) (use Suc.prems False in \<open>simp_all add: ready_def\<close>)
    then obtain sf where "beam_loop argpartition models k num_src fl n (advance models s') = Inr sf"
      using Suc.IH by blast
    then show ?thesis using step False by auto
  qed
qed

lemma gen_init_returns:
  assumes "length xs \<le> 3" and "\<forall>m \<in> set models. length xs \<le> length (snd (f_init m xs))"
  shows "\<exists>s0. gen_init models xs fl = Inr s0"
proof -
  have "\<not> (\<exists>m \<in> set models. length (snd (f_init m xs)) < length xs)"
    using assms(2) by (auto simp: not_less)
  then show ?thesis using assms(1) by (simp add: gen_init_def Let_def)
qed

lemma gen_sample_returns:
  assumes "partition_contract argpartition"
    and "\<forall>m \<in> set models. model_ok V m" and "models \<noteq> []"
    and "length xs \<le> 3" and "\<forall>m \<in> set models. length xs \<le> length (snd (f_init m xs))"
    and "1 \<le> k" and "k \<le> V"
    and "\<not> return_alignment fl" and "suppress_unk fl \<longrightarrow> 2 \<le> V"
  shows "\<exists>out. gen_sample argpartition models xs k maxlen fl = Inr out"
proof -
  obtain s0 where init: "gen_init models xs fl = Inr s0"
    using gen_init_returns [OF assms(4,5)] by blast
  have f: "consistent s0" "live_k s0 = 1" "dead_k s0 = 0" "next_w s0 = [- 1]"
    using gen_init_consistent [OF init] by simp_all
  have "length (next_state s0) = length models" "length (ctx s0) = length models"
    "\<forall>st \<in> set (next_state s0). length st = 1"
    using init by (auto simp: gen_init_def Let_def split: if_splits)
  then have rdy: "ready V k models s0" using f assms(6,7) by (simp add: ready_def)
  have Vpos: "0 < V" using assms(6,7) by simp
  obtain sf where loop: "beam_loop argpartition models k (length xs) fl maxlen s0 = Inr sf"
    using beam_loop_returns [OF assms(1,2,3) Vpos assms(8,9) rdy] by blast
  obtain tr where tr: "beam_trace argpartition models k (length xs) fl maxlen s0 = Inr tr"
      "maxlen = 0 \<longrightarrow> tr = [] \<and> sf = s0"
      "0 < maxlen \<longrightarrow> tr \<noteq> [] \<and> (sf = last tr \<or> sf = advance models (last tr))"
    using beam_loop_trace [OF loop] by blast
  have e0: "\<forall>h \<in> set (sample s0). h \<noteq> [] \<and> last h = 0" using gen_init_consistent(2) [OF init] by simp
  have inv: "\<forall>s' \<in> set tr. consistent s'"
    using beam_trace_invariant [OF assms(1) f(1) e0 tr(1)] by simp
  have csf: "consistent sf"
  proof (cases "maxlen = 0")
    case True
    then show ?thesis using tr(2) f(1) by simp
  next
    case False
    then have "tr \<noteq> []" and "sf = last tr \<or> sf = advance models (last tr)" using tr(3) by simp_all
    moreover have "consistent (last tr)" using inv \<open>tr \<noteq> []\<close> by simp
    ultimately show ?thesis by auto
  qed
  have "\<exists>out. flush (length xs) fl sf = Inr out"
    using csf assms(8) by (simp add: flush_def consistent_def Let_def)
  then show ?thesis using init loop by (auto simp: gen_sample_def)
qed

lemma const_model_ok: "model_ok (length p) (const_model p)"
  by (simp add: model_ok_def const_model_def)


subsection \<open>Runs of the search\<close>

lemma beam_loop_numeral:
  "beam_loop argpartition models k num_src fl (numeral v) s =
     (case beam_step argpartition models k num_src fl s of
        Inl e \<Rightarrow> Inl e
      | Inr s' \<Rightarrow>
          if live_k s' < 1 then Inr s'
          else if k \<le> dead_k s' then Inr s'
          else beam_loop argpartition models k num_src fl (pred_numeral v) (advance models s'))"
  by (simp add: numeral_eq_Suc)

text \<open>
  Probabilities 0 do not stop the search: their candidates cost \<open>+inf\<close> and are selected last.
  With beam width 1 the search over \<open>step_model\<close> returns the sample 2, 0 with cost 0.
\<close>

lemma gen_sample_zero_probabilities:
  "gen_sample argsort_stable [step_model] [()] 1 10 plain
     = Inr \<lparr> r_sample = [[2, 0]], r_score = [Fin 0], r_word_probs = [[Fin 1, Fin 1]],
             r_alignments = [[None]], r_hyp_graph = None \<rparr>"
  by (simp add: run_defs step_model_def beam_loop_numeral)

text \<open>
  With \<open>suppress_unk\<close> the candidates of word 1 cost nan and are selected last: a model that
  prefers word 1 yields word 2. With \<open>return_hyp_graph\<close> the new hypothesis is added to the
  search graph with its last word, its history, the word's probability and its cost.
\<close>

lemma gen_sample_suppress_unk:
  "gen_sample argsort_stable [const_model [1/8, 1/2, 3/8]] [()] 1 1
       (plain \<lparr>suppress_unk := True, return_hyp_graph := True\<rparr>)
     = Inr \<lparr> r_sample = [[2]], r_score = [Fin (ln (8/3))], r_word_probs = [[Fin (3/8)]],
             r_alignments = [[None]],
             r_hyp_graph = Some [(2, [], Fin (3/8), Fin (ln (8/3)))] \<rparr>"
  by (simp add: run_defs ln_div)

text \<open>With \<open>init_decoder\<close>, alignments and a second input, the first step raises IndexError.\<close>

lemma gen_sample_init_decoder_alignment:
  "gen_sample argsort_stable [const_model [1/2, 1/2]] [(), ()] 1 1
       (plain \<lparr>init_decoder := True, return_alignment := True\<rparr>)
     = Inl (Py IndexError)"
  by (simp add: run_defs)


end
